theory Spec2Isabelle
  imports Main "HOL-Library.Word"
begin

section \<open>The scalar encoder of yaml.cpp\<close>

text \<open>
  A \<open>std::string_view\<close> is a \<open>string\<close> (a list of 8-bit characters); the byte value of a
  character, \<open>static_cast<uint8_t>(c)\<close>, is \<open>of_char c\<close>. Positions inside a scalar
  (\<open>size_t\<close>) are natural numbers; \<open>size_t(-1)\<close> is \<open>2 ^ 64 - 1\<close>, the largest value of a
  64-bit \<open>size_t\<close>. An \<open>assert\<close> that fails, and a read outside the buffer, end the
  run without a result: such functions return an \<open>option\<close>, and \<open>None\<close> is that outcome.
\<close>

definition kAsciiTableSize :: nat where
  "kAsciiTableSize = 256"

definition kInvalidPos :: nat where
  "kInvalidPos = 2 ^ 64 - 1"

definition single_quote :: char where
  "single_quote = CHR 0x27"

definition double_quote :: char where
  "double_quote = CHR 0x22"

text \<open>\<open>CharIsIn\<close>: \<open>std::any_of\<close> over the valid set.\<close>

definition CharIsIn :: "char \<Rightarrow> char list \<Rightarrow> bool" where
  "CharIsIn c validSet = list_ex (\<lambda>e. c = e) validSet"

record Special =
  firstSpecialPos :: nat
  firstSingleQuote :: nat
  firstDoubleQuote :: nat
  hasSpecialChars :: bool
  specialChar :: char

text \<open>The constructor \<open>Special(bool)\<close>: every other member keeps its default.\<close>

definition Special_of :: "bool \<Rightarrow> Special" where
  "Special_of hasSpecial =
     \<lparr>firstSpecialPos = 0, firstSingleQuote = 0, firstDoubleQuote = 0,
      hasSpecialChars = hasSpecial, specialChar = CHR 0x00\<rparr>"

record Letter =
  firstPos :: nat
  found :: bool

definition ascii_init :: "Letter list" where
  "ascii_init = replicate kAsciiTableSize \<lparr>firstPos = 0, found = False\<rparr>"

text \<open>
  The first loop of \<open>GetSpecialChars\<close>, over the characters from position \<open>i\<close> on:
  an entry is written when its \<open>firstPos\<close> is still 0.
\<close>

fun build_ascii :: "string \<Rightarrow> nat \<Rightarrow> Letter list \<Rightarrow> Letter list" where
  "build_ascii [] i ascii = ascii"
| "build_ascii (ch # rest) i ascii =
     (let c = (of_char ch :: nat) in
      build_ascii rest (i + 1)
        (if firstPos (ascii ! c) = 0
         then ascii[c := \<lparr>firstPos = i, found = True\<rparr>]
         else ascii))"

definition kLowerBound :: char where
  "kLowerBound = CHR '' ''"

definition kUpperBound :: char where
  "kUpperBound = CHR ''z''"

definition kSpecialChar :: "char list" where
  "kSpecialChar =
     [CHR ''!'', CHR 0x22, CHR ''#'', CHR ''$'', CHR ''%'', CHR ''&'', CHR 0x27, CHR ''*'',
      CHR '','', CHR ''-'', CHR ''/'', CHR '':'', CHR ''<'', CHR ''='', CHR ''>'', CHR ''?'',
      CHR ''@'', CHR ''['', CHR 0x5C, CHR '']'', CHR 0x60]"

text \<open>The test of the second loop: is the byte value \<open>c\<close> unusual or special?\<close>

definition is_special_code :: "nat \<Rightarrow> bool" where
  "is_special_code c =
     (c < of_char kLowerBound \<or> c > of_char kUpperBound \<or>
      list_ex (\<lambda>e. c = of_char e) kSpecialChar)"

text \<open>
  One round of the second loop; the triple is
  \<open>(lowestPosition, firstSingleQuote, firstDoubleQuote)\<close>.
\<close>

definition scan_letter :: "Letter list \<Rightarrow> nat \<Rightarrow> nat \<times> nat \<times> nat \<Rightarrow> nat \<times> nat \<times> nat" where
  "scan_letter ascii c acc =
     (case acc of (lowestPosition, fsq, fdq) \<Rightarrow>
        let letter = ascii ! c in
        if found letter
        then (if is_special_code c \<and> firstPos letter < lowestPosition
              then firstPos letter else lowestPosition,
              if c = of_char single_quote then firstPos letter else fsq,
              if c = of_char double_quote then firstPos letter else fdq)
        else (lowestPosition, fsq, fdq))"

definition scan_ascii :: "Letter list \<Rightarrow> nat \<times> nat \<times> nat" where
  "scan_ascii ascii =
     fold (scan_letter ascii) [0 ..< kAsciiTableSize] (kInvalidPos, kInvalidPos, kInvalidPos)"

definition already_quoted :: "string \<Rightarrow> bool" where
  "already_quoted scalar =
     (length scalar > 2 \<and>
      (hd scalar = single_quote \<or> hd scalar = double_quote) \<and>
      hd scalar = last scalar)"

definition GetSpecialChars :: "string \<Rightarrow> Special" where
  "GetSpecialChars scalar =
     (if scalar = [] then Special_of False
      else if already_quoted scalar then Special_of False
      else
        (case scan_ascii (build_ascii scalar 0 ascii_init) of
           (lowestPosition, fsq, fdq) \<Rightarrow>
             if lowestPosition = kInvalidPos then Special_of False
             else \<lparr>firstSpecialPos = lowestPosition, firstSingleQuote = fsq,
                   firstDoubleQuote = fdq, hasSpecialChars = True,
                   specialChar = scalar ! lowestPosition\<rparr>))"

text \<open>
  \<open>CreateSafeScalar\<close>. The \<open>assert\<close> on the two kinds of quotes is a branch of its own;
  \<open>quote\<close> starts as the null character and is appended when it is not null.
\<close>

definition CreateSafeScalar :: "string \<Rightarrow> string option" where
  "CreateSafeScalar scalar =
     (let special = GetSpecialChars scalar in
      if hasSpecialChars special \<and>
         firstDoubleQuote special < kInvalidPos \<and> firstSingleQuote special < kInvalidPos
      then None
      else
        let quote =
              (if hasSpecialChars special
               then (if firstSingleQuote special < kInvalidPos then double_quote else single_quote)
               else CHR 0x00)
        in Some ((if quote \<noteq> CHR 0x00 then [quote] else []) @ scalar @
                 (if quote \<noteq> CHR 0x00 then [quote] else [])))"

definition CreateKeyValue :: "string \<Rightarrow> string \<Rightarrow> string option" where
  "CreateKeyValue tag scalar =
     map_option (\<lambda>safe. tag @ '': '' @ safe @ [CHR 0x0A]) (CreateSafeScalar scalar)"

section \<open>The parser of yaml.cpp\<close>

subsection \<open>Handler, events and parser state\<close>

text \<open>
  A \<open>YamlHandler\<close> is an object of the caller. The model keeps the calls it has received,
  in order, as a list of events inside the state; the answer of \<open>onKey\<close> and \<open>onScalar\<close>
  (true to continue, false to stop) is a function of the calls received so far, the
  current one included. The handler of yaml.h, which always answers true, is
  \<open>default_handler\<close>.
\<close>

datatype event =
    StartDocument
  | EndDocument
  | StartSequence
  | EndSequence
  | StartMapping
  | EndMapping
  | Key string
  | Scalar string
  | ErrorEvent string "64 word" "64 word"

type_synonym handler = "event list \<Rightarrow> bool"

definition default_handler :: handler where
  "default_handler calls = True"

text \<open>A handler that asks to stop at the first key or scalar.\<close>

definition stop_handler :: handler where
  "stop_handler calls = False"

record Indent =
  level :: "64 word"
  isSequence :: bool

definition kNoLevel :: "64 word" where
  "kNoLevel = - 1"

definition kMaxStackSize :: nat where
  "kMaxStackSize = 32"

definition kMaxScalarStringPrefixForErrorMsg :: nat where
  "kMaxScalarStringPrefixForErrorMsg = 12"

text \<open>
  \<open>curr\<close> and \<open>endp\<close> are the pointers \<open>curr_\<close> and \<open>end_\<close> as offsets into the text;
  \<open>line\<close> and \<open>col\<close> are \<open>size_t\<close> counters, which wrap (\<open>SkipSpaces\<close> decrements \<open>col_\<close>
  at 0). The stack has its top at the head of the list.
\<close>

record YamlParser =
  yaml :: string
  curr :: nat
  endp :: nat
  line :: "64 word"
  col :: "64 word"
  yamlStack :: "Indent list"
  completeKeyValuePair :: bool
  events :: "event list"

definition YamlParser_init :: "string \<Rightarrow> YamlParser" where
  "YamlParser_init text =
     \<lparr>yaml = text, curr = 0, endp = length text, line = 1, col = 0,
      yamlStack = [\<lparr>level = 0, isSequence = False\<rparr>],
      completeKeyValuePair = True, events = []\<rparr>"

definition emit :: "event \<Rightarrow> YamlParser \<Rightarrow> YamlParser" where
  "emit e p = p\<lparr>events := events p @ [e]\<rparr>"

definition onKey :: "handler \<Rightarrow> string \<Rightarrow> YamlParser \<Rightarrow> bool \<times> YamlParser" where
  "onKey h str p = (let p' = emit (Key str) p in (h (events p'), p'))"

definition onScalar :: "handler \<Rightarrow> string \<Rightarrow> YamlParser \<Rightarrow> bool \<times> YamlParser" where
  "onScalar h str p = (let p' = emit (Scalar str) p in (h (events p'), p'))"

text \<open>
  Reading a character of the text. The parser reads \<open>*end_\<close> in three places (after the
  loop of \<open>GetIndent\<close>, in the \<open>switch\<close> that follows it, and in \<open>OutputScalar\<close> after a
  quoted scalar). The text lies in a \<open>std::string\<close> or a string literal, so the byte at
  \<open>end_\<close> is the terminating null character, and that is what such a read returns. A
  read further on is outside the buffer: \<open>None\<close>.
\<close>

definition char_at :: "YamlParser \<Rightarrow> nat \<Rightarrow> char option" where
  "char_at p i =
     (if i < length (yaml p) then Some (yaml p ! i)
      else if i = length (yaml p) then Some (CHR 0x00)
      else None)"

definition peek :: "YamlParser \<Rightarrow> char option" where
  "peek p = char_at p (curr p)"

subsection \<open>Helpers of the anonymous namespace\<close>

datatype TrimTrailingBlanks = No | Yes

text \<open>
  \<open>ExtractStr\<close>: the view from \<open>start\<close> to \<open>end\<close>; the \<open>assert\<close> is a branch, and so
  is a view that would reach beyond the text.
  \<open>remove_suffix(size - (find_last_not_of(' ') + 1))\<close> removes the trailing run of
  spaces (all of the view when it holds nothing else, as \<open>npos + 1\<close> is 0).
\<close>

definition ExtractStr :: "string \<Rightarrow> nat \<Rightarrow> nat \<Rightarrow> TrimTrailingBlanks \<Rightarrow> string option" where
  "ExtractStr buf start end' trimTrailingBlanks =
     (if start \<le> end' \<and> end' \<le> length buf
      then (let str = take (end' - start) (drop start buf) in
            Some (if trimTrailingBlanks = Yes
                  then rev (dropWhile (\<lambda>c. c = CHR '' '') (rev str))
                  else str))
      else None)"

subsection \<open>Members of YamlParser\<close>

definition Error :: "string \<Rightarrow> YamlParser \<Rightarrow> bool \<times> YamlParser" where
  "Error errMessage p = (False, emit (ErrorEvent errMessage (line p) (col p)) p)"

text \<open>\<open>YamlStack::push\<close> asserts \<open>mSize < kMaxStackSize - 1\<close>.\<close>

definition Push :: "Indent \<Rightarrow> YamlParser \<Rightarrow> YamlParser option" where
  "Push indent p =
     (if length (yamlStack p) < kMaxStackSize - 1
      then Some (emit (if isSequence indent then StartSequence else StartMapping)
                  (p\<lparr>completeKeyValuePair := True, yamlStack := indent # yamlStack p\<rparr>))
      else None)"

text \<open>The answer of the handler to the synthetic scalar is not looked at.\<close>

definition HandleMissingNull :: "YamlParser \<Rightarrow> YamlParser" where
  "HandleMissingNull p =
     (if completeKeyValuePair p then p
      else (emit (Scalar ''null'') p)\<lparr>completeKeyValuePair := True\<rparr>)"

definition Pop :: "YamlParser \<Rightarrow> (bool \<times> YamlParser) option" where
  "Pop p =
     (if length (yamlStack p) = 1
      then Some (Error ''Too many closing braces or brackets'' p)
      else
        (let p1 = HandleMissingNull p in
         case yamlStack p1 of
           [] \<Rightarrow> None
         | frame # rest \<Rightarrow>
             Some (True, (emit (if isSequence frame then EndSequence else EndMapping) p1)
                           \<lparr>yamlStack := rest\<rparr>)))"

definition PeekNext :: "YamlParser \<Rightarrow> char option" where
  "PeekNext p = (if curr p + 1 \<ge> endp p then Some (CHR 0x00) else char_at p (curr p + 1))"

definition kIndentChars :: "char list" where
  "kIndentChars = [CHR '' '', CHR ''-'']"

definition kIgnoreIndent :: "char list" where
  "kIgnoreIndent = [CHR 0x0D, CHR 0x0A, CHR ''#'']"

function GetIndent_loop :: "YamlParser \<Rightarrow> Indent \<Rightarrow> (Indent \<times> YamlParser) option" where
  "GetIndent_loop p indent =
     (if curr p < endp p
      then (case peek p of
              None \<Rightarrow> None
            | Some c \<Rightarrow>
                if CharIsIn c kIndentChars
                then GetIndent_loop (p\<lparr>curr := curr p + 1\<rparr>)
                       (indent\<lparr>level := level indent + 1,
                               isSequence := (if c = CHR ''-'' then True else isSequence indent)\<rparr>)
                else Some (indent, p))
      else Some (indent, p))"
  by pat_completeness auto
termination
  by (relation "measure (\<lambda>(p, indent). endp p - curr p)") auto

declare GetIndent_loop.simps [simp del]

text \<open>After the loop \<open>*curr_\<close> is read without a test against \<open>end_\<close>.\<close>

definition GetIndent :: "YamlParser \<Rightarrow> (Indent \<times> YamlParser) option" where
  "GetIndent p =
     (case GetIndent_loop p \<lparr>level = 0, isSequence = False\<rparr> of
        None \<Rightarrow> None
      | Some (indent, p') \<Rightarrow>
          (case peek p' of
             None \<Rightarrow> None
           | Some c \<Rightarrow>
               Some (if CharIsIn c kIgnoreIndent then indent\<lparr>level := kNoLevel\<rparr> else indent,
                     p')))"

function SkipStartDocument_loop :: "YamlParser \<Rightarrow> nat \<Rightarrow> (nat \<times> YamlParser) option" where
  "SkipStartDocument_loop p dashCount =
     (if curr p < endp p
      then (case peek p of
              None \<Rightarrow> None
            | Some c \<Rightarrow>
                if c = CHR ''-'' \<and> dashCount < 3
                then SkipStartDocument_loop (p\<lparr>curr := curr p + 1\<rparr>) (dashCount + 1)
                else Some (dashCount, p))
      else Some (dashCount, p))"
  by pat_completeness auto
termination
  by (relation "measure (\<lambda>(p, dashCount). 3 - dashCount)") auto

declare SkipStartDocument_loop.simps [simp del]

definition SkipStartDocument :: "YamlParser \<Rightarrow> (bool \<times> YamlParser) option" where
  "SkipStartDocument p =
     (case SkipStartDocument_loop (p\<lparr>curr := curr p + 1\<rparr>) 1 of
        None \<Rightarrow> None
      | Some (dashCount, p') \<Rightarrow> Some (dashCount = 3, p'\<lparr>col := col p' + of_nat dashCount\<rparr>))"

function SkipSpaces_loop :: "YamlParser \<Rightarrow> YamlParser option" where
  "SkipSpaces_loop p =
     (if curr p < endp p
      then (case peek p of
              None \<Rightarrow> None
            | Some c \<Rightarrow>
                if c = CHR '' ''
                then SkipSpaces_loop (p\<lparr>curr := curr p + 1, col := col p + 1\<rparr>)
                else Some p)
      else Some p)"
  by pat_completeness auto
termination
  by (relation "measure (\<lambda>p. endp p - curr p)") auto

declare SkipSpaces_loop.simps [simp del]

definition SkipSpaces :: "YamlParser \<Rightarrow> YamlParser option" where
  "SkipSpaces p =
     (case SkipSpaces_loop (p\<lparr>curr := curr p + 1\<rparr>) of
        None \<Rightarrow> None
      | Some p' \<Rightarrow> Some (p'\<lparr>curr := curr p' - 1, col := col p' - 1\<rparr>))"

definition kEndLine :: "char list" where
  "kEndLine = [CHR 0x0D, CHR 0x0A]"

text \<open>\<open>--curr_\<close> at the first character of the text would leave the buffer: \<open>None\<close>.\<close>

function SkipLine :: "YamlParser \<Rightarrow> YamlParser option" where
  "SkipLine p =
     (if curr p < endp p
      then (case peek p of
              None \<Rightarrow> None
            | Some c \<Rightarrow>
                if CharIsIn c kEndLine
                then (if curr p = 0 then None else Some (p\<lparr>curr := curr p - 1\<rparr>))
                else SkipLine (p\<lparr>curr := curr p + 1\<rparr>))
      else Some p)"
  by pat_completeness auto
termination
  by (relation "measure (\<lambda>p. endp p - curr p)") auto

declare SkipLine.simps [simp del]

definition kIsWhite :: "char list" where
  "kIsWhite = [CHR '' '', CHR 0x0D, CHR 0x0A, CHR 0x00]"

definition IsNormalChar :: "YamlParser \<Rightarrow> bool option" where
  "IsNormalChar p =
     (case peek p of
        None \<Rightarrow> None
      | Some c \<Rightarrow>
          if c = CHR '':'' \<or> c = CHR '',''
          then (case PeekNext p of
                  None \<Rightarrow> None
                | Some n \<Rightarrow> Some (if CharIsIn n kIsWhite then False else True))
          else Some False)"

text \<open>\<open>OutputScalar\<close> reads \<open>*curr_\<close>, steps back by one, and calls the handler.\<close>

definition OutputScalar :: "handler \<Rightarrow> string \<Rightarrow> YamlParser \<Rightarrow> (bool \<times> YamlParser) option" where
  "OutputScalar h str p =
     (case peek p of
        None \<Rightarrow> None
      | Some c \<Rightarrow>
          if curr p = 0 then None
          else
            (let p1 = p\<lparr>curr := curr p - 1\<rparr> in
             if c = CHR '':''
             then Some (onKey h str ((HandleMissingNull p1)\<lparr>completeKeyValuePair := False\<rparr>))
             else Some (onScalar h str (p1\<lparr>completeKeyValuePair := True\<rparr>))))"

definition kEndScalar :: "char list" where
  "kEndScalar =
     [CHR '','', CHR '':'', CHR 0x09, CHR 0x0D, CHR 0x0A, CHR '']'', CHR ''}'', CHR ''#'']"

function ParsePlain_loop :: "handler \<Rightarrow> nat \<Rightarrow> YamlParser \<Rightarrow> (bool \<times> YamlParser) option" where
  "ParsePlain_loop h startStr p =
     (if curr p < endp p
      then (case peek p of
              None \<Rightarrow> None
            | Some c \<Rightarrow>
                if CharIsIn c kEndScalar
                then (case IsNormalChar p of
                        None \<Rightarrow> None
                      | Some normal \<Rightarrow>
                          if normal then ParsePlain_loop h startStr (p\<lparr>curr := curr p + 1\<rparr>)
                          else (case ExtractStr (yaml p) startStr (curr p) Yes of
                                  None \<Rightarrow> None
                                | Some str \<Rightarrow>
                                    OutputScalar h str
                                      (p\<lparr>col := col p + of_nat (curr p - startStr)\<rparr>)))
                else ParsePlain_loop h startStr (p\<lparr>curr := curr p + 1\<rparr>))
      else (case ExtractStr (yaml p) startStr (curr p) Yes of
              None \<Rightarrow> None
            | Some str \<Rightarrow> Some (onScalar h str (p\<lparr>completeKeyValuePair := True\<rparr>))))"
  by pat_completeness auto
termination
  by (relation "measure (\<lambda>(h, startStr, p). endp p - curr p)") auto

declare ParsePlain_loop.simps [simp del]

definition ParsePlain :: "handler \<Rightarrow> YamlParser \<Rightarrow> (bool \<times> YamlParser) option" where
  "ParsePlain h p = ParsePlain_loop h (curr p) p"

definition kQuoteChars :: nat where
  "kQuoteChars = 2"

definition kImportantChar :: "char list" where
  "kImportantChar =
     [CHR '':'', CHR 0x09, CHR 0x0D, CHR 0x0A, CHR '','', CHR '']'', CHR ''}'', CHR ''#'']"

text \<open>The inner loop of \<open>ParseQuoted\<close>: on to the next important character.\<close>

function SkipToImportant :: "YamlParser \<Rightarrow> YamlParser option" where
  "SkipToImportant p =
     (if curr p < endp p
      then (case peek p of
              None \<Rightarrow> None
            | Some c \<Rightarrow>
                if CharIsIn c kImportantChar then Some p
                else SkipToImportant (p\<lparr>curr := curr p + 1\<rparr>))
      else Some p)"
  by pat_completeness auto
termination
  by (relation "measure (\<lambda>p. endp p - curr p)") auto

declare SkipToImportant.simps [simp del]

function ParseQuoted_loop ::
  "handler \<Rightarrow> char \<Rightarrow> nat \<Rightarrow> YamlParser \<Rightarrow> (bool \<times> YamlParser) option" where
  "ParseQuoted_loop h quote startStr p =
     (if curr p < endp p
      then (case peek p of
              None \<Rightarrow> None
            | Some c \<Rightarrow>
                if c = quote
                then (case ExtractStr (yaml p) startStr (curr p) No of
                        None \<Rightarrow> None
                      | Some str \<Rightarrow>
                          (case SkipToImportant (p\<lparr>curr := curr p + 1\<rparr>) of
                             None \<Rightarrow> None
                           | Some p' \<Rightarrow>
                               OutputScalar h str
                                 (p'\<lparr>col := col p' + of_nat (curr p' - startStr + kQuoteChars)\<rparr>)))
                else ParseQuoted_loop h quote startStr (p\<lparr>curr := curr p + 1\<rparr>))
      else (case ExtractStr (yaml p) (startStr - 1)
                   (min (curr p) (startStr + kMaxScalarStringPrefixForErrorMsg)) No of
              None \<Rightarrow> None
            | Some str \<Rightarrow> Some (Error (''Unterminated quoted scalar <'' @ str @ ''...>'') p)))"
  by pat_completeness auto
termination
  by (relation "measure (\<lambda>(h, quote, startStr, p). endp p - curr p)") auto

declare ParseQuoted_loop.simps [simp del]

definition ParseQuoted :: "handler \<Rightarrow> char \<Rightarrow> YamlParser \<Rightarrow> (bool \<times> YamlParser) option" where
  "ParseQuoted h quote p = ParseQuoted_loop h quote (curr p + 1) (p\<lparr>curr := curr p + 1\<rparr>)"

definition ParseNode :: "handler \<Rightarrow> YamlParser \<Rightarrow> (bool \<times> YamlParser) option" where
  "ParseNode h p =
     (case peek p of
        None \<Rightarrow> None
      | Some c \<Rightarrow>
          if c = single_quote then ParseQuoted h single_quote p
          else if c = double_quote then ParseQuoted h double_quote p
          else ParsePlain h p)"

subsection \<open>Parse\<close>

text \<open>
  The functions below return \<open>Some (True, p)\<close> where the source goes on with the loop
  and \<open>Some (False, p)\<close> where it leaves \<open>Parse\<close> with \<open>return false\<close>.

  \<open>PopWhile\<close> is \<open>while (indent.level < top().level) if (!Pop()) return false\<close>.
\<close>

lemma Pop_shrinks:
  "Pop p = Some (True, p') \<Longrightarrow> length (yamlStack p') < length (yamlStack p)"
  by (auto simp: Pop_def Error_def HandleMissingNull_def emit_def Let_def
      split: if_splits list.splits)

function PopWhile :: "Indent \<Rightarrow> YamlParser \<Rightarrow> (bool \<times> YamlParser) option" where
  "PopWhile indent p =
     (case yamlStack p of
        [] \<Rightarrow> None
      | frame # rest \<Rightarrow>
          if level indent < level frame
          then (case Pop p of
                  None \<Rightarrow> None
                | Some (ok, p') \<Rightarrow> if ok then PopWhile indent p' else Some (False, p'))
          else Some (True, p))"
  by pat_completeness auto
termination
  by (relation "measure (\<lambda>(indent, p). length (yamlStack p))") (auto dest: Pop_shrinks)

declare PopWhile.simps [simp del]

text \<open>The indentation part of an iteration, run when \<open>col_ == 1\<close>.\<close>

definition HandleIndent :: "YamlParser \<Rightarrow> (bool \<times> YamlParser) option" where
  "HandleIndent p =
     (if col p = 1
      then (case GetIndent p of
              None \<Rightarrow> None
            | Some (indent, p1) \<Rightarrow>
                if level indent = kNoLevel then Some (True, p1)
                else (case yamlStack p1 of
                        [] \<Rightarrow> None
                      | frame # rest \<Rightarrow>
                          if level indent > level frame
                          then map_option (Pair True) (Push indent p1)
                          else PopWhile indent p1))
      else Some (True, p))"

definition kUnsupported :: "char list" where
  "kUnsupported =
     [CHR ''|'', CHR ''>'', CHR ''?'', CHR ''&'', CHR ''*'', CHR ''!'', CHR ''@'', CHR 0x60]"

text \<open>The \<open>switch\<close> on \<open>*curr_\<close>.\<close>

definition Dispatch :: "handler \<Rightarrow> YamlParser \<Rightarrow> (bool \<times> YamlParser) option" where
  "Dispatch h p =
     (case peek p of
        None \<Rightarrow> None
      | Some c \<Rightarrow>
          if c = CHR ''-''
          then (case PeekNext p of
                  None \<Rightarrow> None
                | Some n \<Rightarrow>
                    if n = CHR '' '' then map_option (Pair True) (SkipSpaces (emit StartMapping p))
                    else if n = CHR ''-''
                    then map_option (\<lambda>r. (True, snd r)) (SkipStartDocument p)
                    else ParseNode h p)
          else if c = CHR '':'' \<or> c = CHR '','' then map_option (Pair True) (SkipSpaces p)
          else if c = CHR ''[''
          then map_option (Pair True)
                 (SkipSpaces (emit StartSequence (p\<lparr>completeKeyValuePair := True\<rparr>)))
          else if c = CHR '']''
          then map_option (Pair True) (SkipSpaces (emit EndSequence (HandleMissingNull p)))
          else if c = CHR ''{''
          then map_option (Pair True)
                 (SkipSpaces (emit StartMapping (p\<lparr>completeKeyValuePair := True\<rparr>)))
          else if c = CHR ''}''
          then map_option (Pair True) (SkipSpaces (emit EndMapping (HandleMissingNull p)))
          else if c = CHR ''#'' \<or> c = CHR ''%'' then map_option (Pair True) (SkipLine p)
          else if c = CHR 0x0A then Some (True, p\<lparr>line := line p + 1, col := 0\<rparr>)
          else if c = CHR 0x0D \<or> c = CHR '' '' then Some (True, p)
          else if c = CHR 0x00 then Some (True, p\<lparr>endp := curr p\<rparr>)
          else if c = CHR 0x09 then Some (Error ''Avoid tabs in YAML files'' p)
          else if CharIsIn c kUnsupported
          then Some (Error ([c] @ '' directive not supported'') p)
          else ParseNode h p)"

text \<open>One run of the body of the \<open>for\<close> loop, without its increment.\<close>

definition Iteration :: "handler \<Rightarrow> YamlParser \<Rightarrow> (bool \<times> YamlParser) option" where
  "Iteration h p =
     (case HandleIndent p of
        None \<Rightarrow> None
      | Some (ok, p1) \<Rightarrow> if ok then Dispatch h p1 else Some (False, p1))"

subsection \<open>The cursor never moves back over an iteration\<close>

text \<open>
  The \<open>for\<close> loop of \<open>Parse\<close> ends because an iteration never leaves \<open>curr_\<close> before the
  place where it started, and never moves \<open>end_\<close> forward. The lemmas of this subsection
  establish that, function by function.
\<close>

lemma GetIndent_loop_pos:
  "GetIndent_loop p i = Some (i', p') \<Longrightarrow>
   curr p \<le> curr p' \<and> endp p' = endp p \<and> (curr p \<le> endp p \<longrightarrow> curr p' \<le> endp p)"
proof (induction p i rule: GetIndent_loop.induct)
  case (1 p indent)
  show ?case using "1.prems" "1.IH"
    by (subst (asm) GetIndent_loop.simps) (auto split: if_splits option.splits)
qed

lemma GetIndent_pos:
  "GetIndent p = Some (i', p') \<Longrightarrow>
   curr p \<le> curr p' \<and> endp p' = endp p \<and> (curr p \<le> endp p \<longrightarrow> curr p' \<le> endp p)"
  by (auto simp: GetIndent_def split: option.splits dest: GetIndent_loop_pos)

lemma HandleMissingNull_pos [simp]:
  "curr (HandleMissingNull p) = curr p" "endp (HandleMissingNull p) = endp p"
  by (simp_all add: HandleMissingNull_def emit_def)

lemma emit_pos [simp]: "curr (emit e p) = curr p" "endp (emit e p) = endp p"
  by (simp_all add: emit_def)

lemma Pop_pos: "Pop p = Some (ok, p') \<Longrightarrow> curr p' = curr p \<and> endp p' = endp p"
  by (auto simp: Pop_def Error_def Let_def split: if_splits list.splits)

lemma Push_pos: "Push i p = Some p' \<Longrightarrow> curr p' = curr p \<and> endp p' = endp p"
  by (auto simp: Push_def split: if_splits)

lemma PopWhile_pos: "PopWhile i p = Some (ok, p') \<Longrightarrow> curr p' = curr p \<and> endp p' = endp p"
proof (induction i p rule: PopWhile.induct)
  case (1 indent p)
  show ?case using "1.prems" "1.IH"
    by (subst (asm) PopWhile.simps) (auto split: if_splits option.splits list.splits dest: Pop_pos)
qed

lemma HandleIndent_pos:
  "HandleIndent p = Some (ok, p') \<Longrightarrow> curr p < endp p \<Longrightarrow>
   curr p \<le> curr p' \<and> endp p' = endp p \<and> curr p' \<le> endp p"
  by (auto simp: HandleIndent_def split: if_splits option.splits list.splits
      dest!: GetIndent_pos Push_pos PopWhile_pos)

lemma SkipSpaces_loop_pos:
  "SkipSpaces_loop p = Some p' \<Longrightarrow> curr p \<le> curr p' \<and> endp p' = endp p"
proof (induction p rule: SkipSpaces_loop.induct)
  case (1 p)
  show ?case using "1.prems" "1.IH"
    by (subst (asm) SkipSpaces_loop.simps) (auto split: if_splits option.splits)
qed

lemma SkipSpaces_pos: "SkipSpaces p = Some p' \<Longrightarrow> curr p \<le> curr p' \<and> endp p' = endp p"
  by (auto simp: SkipSpaces_def split: option.splits dest!: SkipSpaces_loop_pos)

lemma SkipStartDocument_loop_pos:
  "SkipStartDocument_loop p n = Some (n', p') \<Longrightarrow> curr p \<le> curr p' \<and> endp p' = endp p"
proof (induction p n rule: SkipStartDocument_loop.induct)
  case (1 p dashCount)
  show ?case using "1.prems" "1.IH"
    by (subst (asm) SkipStartDocument_loop.simps) (auto split: if_splits option.splits)
qed

lemma SkipStartDocument_pos:
  "SkipStartDocument p = Some (b, p') \<Longrightarrow> curr p \<le> curr p' \<and> endp p' = endp p"
  by (auto simp: SkipStartDocument_def split: option.splits dest!: SkipStartDocument_loop_pos)

lemma SkipLine_pos_aux:
  "SkipLine p = Some p' \<Longrightarrow> curr p \<le> curr p' + 1 \<and> endp p' = endp p"
proof (induction p rule: SkipLine.induct)
  case (1 p)
  show ?case using "1.prems" "1.IH"
    by (subst (asm) SkipLine.simps) (auto split: if_splits option.splits)
qed

lemma SkipLine_pos:
  "SkipLine p = Some p' \<Longrightarrow> peek p = Some c \<Longrightarrow> \<not> CharIsIn c kEndLine \<Longrightarrow>
   curr p \<le> curr p' \<and> endp p' = endp p"
  by (subst (asm) SkipLine.simps) (auto split: if_splits dest!: SkipLine_pos_aux)

lemma OutputScalar_pos:
  "OutputScalar h str p = Some (ok, p') \<Longrightarrow> curr p \<le> curr p' + 1 \<and> endp p' = endp p"
  by (auto simp: OutputScalar_def onKey_def onScalar_def Let_def split: option.splits if_splits)

lemma ParsePlain_loop_pos_aux:
  "ParsePlain_loop h s p = Some (ok, p') \<Longrightarrow> curr p \<le> curr p' + 1 \<and> endp p' = endp p"
proof (induction h s p rule: ParsePlain_loop.induct)
  case (1 h startStr p)
  have IH1: "curr p < endp p \<Longrightarrow> peek p = Some c \<Longrightarrow> CharIsIn c kEndScalar \<Longrightarrow>
      IsNormalChar p = Some True \<Longrightarrow>
      ParsePlain_loop h startStr (p\<lparr>curr := curr p + 1\<rparr>) = Some (ok, p') \<Longrightarrow>
      curr p \<le> curr p' \<and> endp p' = endp p" for c
    using "1.IH"(1) [of c True] by simp
  show ?case using "1.prems" "1.IH"(2) IH1
    by (subst (asm) ParsePlain_loop.simps)
       (auto simp: onScalar_def Let_def split: if_splits option.splits dest!: OutputScalar_pos)
qed

lemma ParsePlain_pos:
  "ParsePlain h p = Some (ok, p') \<Longrightarrow> peek p = Some c \<Longrightarrow> \<not> CharIsIn c kEndScalar \<Longrightarrow>
   curr p \<le> curr p' \<and> endp p' = endp p"
  unfolding ParsePlain_def
  by (subst (asm) ParsePlain_loop.simps)
     (auto simp: onScalar_def Let_def split: if_splits option.splits dest!: ParsePlain_loop_pos_aux)

lemma SkipToImportant_pos:
  "SkipToImportant p = Some p' \<Longrightarrow> curr p \<le> curr p' \<and> endp p' = endp p"
proof (induction p rule: SkipToImportant.induct)
  case (1 p)
  show ?case using "1.prems" "1.IH"
    by (subst (asm) SkipToImportant.simps) (auto split: if_splits option.splits)
qed

lemma ParseQuoted_loop_pos:
  "ParseQuoted_loop h q s p = Some (ok, p') \<Longrightarrow> curr p \<le> curr p' \<and> endp p' = endp p"
proof (induction h q s p rule: ParseQuoted_loop.induct)
  case (1 h quote startStr p)
  show ?case using "1.prems" "1.IH"
    by (subst (asm) ParseQuoted_loop.simps)
       (auto simp: Error_def split: if_splits option.splits
             dest!: OutputScalar_pos SkipToImportant_pos)
qed

lemma ParseQuoted_pos:
  "ParseQuoted h q p = Some (ok, p') \<Longrightarrow> curr p \<le> curr p' \<and> endp p' = endp p"
  by (auto simp: ParseQuoted_def dest!: ParseQuoted_loop_pos)

lemma ParseNode_pos:
  "ParseNode h p = Some (ok, p') \<Longrightarrow> peek p = Some c \<Longrightarrow> \<not> CharIsIn c kEndScalar \<Longrightarrow>
   curr p \<le> curr p' \<and> endp p' = endp p"
  by (auto simp: ParseNode_def split: if_splits dest: ParseQuoted_pos ParsePlain_pos)

lemma Dispatch_cases [consumes 1, case_names dash_space marker node separator open_seq close_seq
    open_map close_map comment newline blank nul error]:
  assumes "Dispatch h p = Some r"
  obtains
    p' where "peek p = Some (CHR ''-'')" "PeekNext p = Some (CHR '' '')"
      "SkipSpaces (emit StartMapping p) = Some p'" "r = (True, p')"
  | b p' where "peek p = Some (CHR ''-'')" "PeekNext p = Some (CHR ''-'')"
      "SkipStartDocument p = Some (b, p')" "r = (True, p')"
  | c where "peek p = Some c" "\<not> CharIsIn c kEndScalar" "c \<noteq> CHR 0x00"
      "ParseNode h p = Some r"
  | c p' where "peek p = Some c" "c \<noteq> CHR 0x09" "SkipSpaces p = Some p'" "r = (True, p')"
  | c p' where "peek p = Some c" "c \<noteq> CHR 0x09"
      "SkipSpaces (emit StartSequence (p\<lparr>completeKeyValuePair := True\<rparr>)) = Some p'"
      "r = (True, p')"
  | c p' where "peek p = Some c" "c \<noteq> CHR 0x09"
      "SkipSpaces (emit EndSequence (HandleMissingNull p)) = Some p'" "r = (True, p')"
  | c p' where "peek p = Some c" "c \<noteq> CHR 0x09"
      "SkipSpaces (emit StartMapping (p\<lparr>completeKeyValuePair := True\<rparr>)) = Some p'"
      "r = (True, p')"
  | c p' where "peek p = Some c" "c \<noteq> CHR 0x09"
      "SkipSpaces (emit EndMapping (HandleMissingNull p)) = Some p'" "r = (True, p')"
  | c p' where "peek p = Some c" "c = CHR ''#'' \<or> c = CHR ''%''" "SkipLine p = Some p'"
      "r = (True, p')"
  | c where "peek p = Some c" "c \<noteq> CHR 0x09" "r = (True, p\<lparr>line := line p + 1, col := 0\<rparr>)"
  | c where "peek p = Some c" "c \<noteq> CHR 0x09" "r = (True, p)"
  | "peek p = Some (CHR 0x00)" "r = (True, p\<lparr>endp := curr p\<rparr>)"
  | msg where "r = Error msg p"
proof -
  from assms obtain c where c: "peek p = Some c"
    by (cases "peek p") (simp_all add: Dispatch_def)
  note D = assms [unfolded Dispatch_def c option.case]
  consider (dash) "c = CHR ''-''" | (sep) "c = CHR '':'' \<or> c = CHR '',''"
    | (lbr) "c = CHR ''[''" | (rbr) "c = CHR '']''" | (lbc) "c = CHR ''{''" | (rbc) "c = CHR ''}''"
    | (com) "c = CHR ''#'' \<or> c = CHR ''%''" | (nl) "c = CHR 0x0A"
    | (bl) "c = CHR 0x0D \<or> c = CHR '' ''" | (nul) "c = CHR 0x00" | (tab) "c = CHR 0x09"
    | (other) "c \<noteq> CHR ''-''" "c \<noteq> CHR '':''" "c \<noteq> CHR '',''" "c \<noteq> CHR ''[''" "c \<noteq> CHR '']''"
        "c \<noteq> CHR ''{''" "c \<noteq> CHR ''}''" "c \<noteq> CHR ''#''" "c \<noteq> CHR ''%''" "c \<noteq> CHR 0x0A"
        "c \<noteq> CHR 0x0D" "c \<noteq> CHR '' ''" "c \<noteq> CHR 0x00" "c \<noteq> CHR 0x09"
    by blast
  then show thesis
  proof cases
    case dash
    have ne: "\<not> CharIsIn c kEndScalar" "c \<noteq> CHR 0x00"
      using dash by (simp_all add: CharIsIn_def kEndScalar_def)
    have cd: "peek p = Some (CHR ''-'')" using c dash by simp
    from D dash obtain n where n: "PeekNext p = Some n"
      by (cases "PeekNext p") simp_all
    note D' = D [unfolded n option.case]
    show ?thesis
    proof (cases "n = CHR '' ''")
      case True
      with D' dash obtain p' where A: "SkipSpaces (emit StartMapping p) = Some p'"
        and B: "r = (True, p')"
        by auto
      from n True have "PeekNext p = Some (CHR '' '')" by simp
      with cd show ?thesis using A B by (rule that(1))
    next
      case ns: False
      show ?thesis
      proof (cases "n = CHR ''-''")
        case True
        with D' dash ns obtain b p' where A: "SkipStartDocument p = Some (b, p')"
          and B: "r = (True, p')"
          by auto
        from n True have "PeekNext p = Some (CHR ''-'')" by simp
        with cd show ?thesis using A B by (rule that(2))
      next
        case False
        with D' dash ns have "ParseNode h p = Some r" by simp
        with c ne show ?thesis by (rule that(3))
      qed
    qed
  next
    case sep
    with D obtain p' where A: "SkipSpaces p = Some p'" and B: "r = (True, p')"
      by auto
    have nt: "c \<noteq> CHR 0x09" using sep by auto
    show ?thesis using c nt A B by (rule that(4))
  next
    case lbr
    with D obtain p' where A: "SkipSpaces (emit StartSequence (p\<lparr>completeKeyValuePair := True\<rparr>)) = Some p'" and B: "r = (True, p')"
      by auto
    have nt: "c \<noteq> CHR 0x09" using lbr by auto
    show ?thesis using c nt A B by (rule that(5))
  next
    case rbr
    with D obtain p' where A: "SkipSpaces (emit EndSequence (HandleMissingNull p)) = Some p'" and B: "r = (True, p')"
      by auto
    have nt: "c \<noteq> CHR 0x09" using rbr by auto
    show ?thesis using c nt A B by (rule that(6))
  next
    case lbc
    with D obtain p' where A: "SkipSpaces (emit StartMapping (p\<lparr>completeKeyValuePair := True\<rparr>)) = Some p'" and B: "r = (True, p')"
      by auto
    have nt: "c \<noteq> CHR 0x09" using lbc by auto
    show ?thesis using c nt A B by (rule that(7))
  next
    case rbc
    with D obtain p' where A: "SkipSpaces (emit EndMapping (HandleMissingNull p)) = Some p'" and B: "r = (True, p')"
      by auto
    have nt: "c \<noteq> CHR 0x09" using rbc by auto
    show ?thesis using c nt A B by (rule that(8))
  next
    case com
    from com D obtain p' where A: "SkipLine p = Some p'" and B: "r = (True, p')" by auto
    show ?thesis using c com A B by (rule that(9))
  next
    case nl
    with D have B: "r = (True, p\<lparr>line := line p + 1, col := 0\<rparr>)" by simp
    have nt: "c \<noteq> CHR 0x09" using nl by simp
    show ?thesis using c nt B by (rule that(10))
  next
    case bl
    with D have B: "r = (True, p)" by auto
    have nt: "c \<noteq> CHR 0x09" using bl by auto
    show ?thesis using c nt B by (rule that(11))
  next
    case nul
    with D have B: "r = (True, p\<lparr>endp := curr p\<rparr>)" by simp
    from c nul have "peek p = Some (CHR 0x00)" by simp
    then show ?thesis using B by (rule that(12))
  next
    case tab
    with D have "r = Error ''Avoid tabs in YAML files'' p" by simp
    then show ?thesis by (rule that(13))
  next
    case other
    have ne: "\<not> CharIsIn c kEndScalar" using other by (simp add: CharIsIn_def kEndScalar_def)
    show ?thesis
    proof (cases "CharIsIn c kUnsupported")
      case True
      with D other have "r = Error ([c] @ '' directive not supported'') p" by simp
      then show ?thesis by (rule that(13))
    next
      case False
      with D other have "ParseNode h p = Some r" by simp
      with c ne other(13) show ?thesis by (rule that(3))
    qed
  qed
qed

lemma Dispatch_pos:
  assumes "Dispatch h p = Some (ok, p')" and "curr p \<le> endp p"
  shows "curr p \<le> curr p' \<and> endp p' \<le> endp p"
  using assms
proof (cases rule: Dispatch_cases)
  case (node c)
  then show ?thesis using ParseNode_pos by fastforce
next
  case (comment c p')
  then have "\<not> CharIsIn c kEndLine" by (auto simp: CharIsIn_def kEndLine_def)
  with comment show ?thesis using SkipLine_pos by fastforce
qed (auto simp: Error_def dest!: SkipSpaces_pos SkipStartDocument_pos)

lemma Iteration_pos:
  "Iteration h p = Some (ok, p') \<Longrightarrow> curr p < endp p \<Longrightarrow>
   curr p \<le> curr p' \<and> endp p' \<le> endp p"
  by (auto simp: Iteration_def split: option.splits if_splits
      dest!: HandleIndent_pos Dispatch_pos)

subsection \<open>The loop of Parse and Parse itself\<close>

function Parse_loop :: "handler \<Rightarrow> YamlParser \<Rightarrow> (bool \<times> YamlParser) option" where
  "Parse_loop h p =
     (if curr p < endp p
      then (case Iteration h p of
              None \<Rightarrow> None
            | Some (ok, p') \<Rightarrow>
                if ok then Parse_loop h (p'\<lparr>curr := curr p' + 1, col := col p' + 1\<rparr>)
                else Some (False, p'))
      else Some (True, p))"
  by pat_completeness auto
termination
  by (relation "measure (\<lambda>(h, p). endp p - curr p)") (auto dest!: Iteration_pos)

declare Parse_loop.simps [simp del]

text \<open>The unwinding after the loop: \<open>while (yamlStack_.size() > 1) Pop()\<close>.\<close>

lemma Pop_shrinks_any:
  "Pop p = Some (ok, p') \<Longrightarrow> 1 < length (yamlStack p) \<Longrightarrow>
   length (yamlStack p') < length (yamlStack p)"
  by (auto simp: Pop_def Error_def HandleMissingNull_def emit_def Let_def
      split: if_splits list.splits)

function PopAll :: "YamlParser \<Rightarrow> YamlParser option" where
  "PopAll p =
     (if length (yamlStack p) > 1
      then (case Pop p of None \<Rightarrow> None | Some (ok, p') \<Rightarrow> PopAll p')
      else Some p)"
  by pat_completeness auto
termination
  by (relation "measure (\<lambda>p. length (yamlStack p))") (auto dest: Pop_shrinks_any)

declare PopAll.simps [simp del]

definition Parse :: "handler \<Rightarrow> string \<Rightarrow> (bool \<times> YamlParser) option" where
  "Parse h text =
     (case Parse_loop h (emit StartDocument (YamlParser_init text)) of
        None \<Rightarrow> None
      | Some (ok, p) \<Rightarrow>
          if ok
          then (case PopAll p of
                  None \<Rightarrow> None
                | Some p' \<Rightarrow> Some (True, emit EndDocument p'))
          else Some (False, p))"

text \<open>What the caller of \<open>Parse\<close> sees: the returned flag and the calls the handler got.\<close>

definition Parse_events :: "handler \<Rightarrow> string \<Rightarrow> (bool \<times> event list) option" where
  "Parse_events h text = map_option (\<lambda>r. (fst r, events (snd r))) (Parse h text)"

subsection \<open>The states of the loop and the shape of the indent stack\<close>

text \<open>
  \<open>stack_ok\<close>: the stack is not empty, its bottom frame is the \<open>Indent{}\<close> that the
  constructor pushed, and the levels fall strictly from the top down.

  \<open>loop_reaches h p q\<close>: the \<open>for\<close> loop of \<open>Parse\<close>, started in state \<open>p\<close>, stands in
  state \<open>q\<close> at the head of one of its iterations.
\<close>

definition stack_ok :: "Indent list \<Rightarrow> bool" where
  "stack_ok stk =
     (stk \<noteq> [] \<and> last stk = \<lparr>level = 0, isSequence = False\<rparr> \<and>
      sorted_wrt (\<lambda>upper lower. level lower < level upper) stk)"

inductive loop_reaches :: "handler \<Rightarrow> YamlParser \<Rightarrow> YamlParser \<Rightarrow> bool" for h p where
  start: "loop_reaches h p p"
| step: "loop_reaches h p q \<Longrightarrow> curr q < endp q \<Longrightarrow> Iteration h q = Some (True, q') \<Longrightarrow>
         loop_reaches h p (q'\<lparr>curr := curr q' + 1, col := col q' + 1\<rparr>)"

text \<open>
  \<open>push_refused p\<close>: the iteration that starts in state \<open>p\<close> stands at the first column,
  finds an indentation above the level of the top frame, and \<open>YamlStack::push\<close> meets a
  full stack (\<open>kMaxStackSize - 1\<close> frames), where its \<open>assert\<close> fails.
\<close>

definition push_refused :: "YamlParser \<Rightarrow> bool" where
  "push_refused p =
     (col p = 1 \<and>
      (case GetIndent p of
         None \<Rightarrow> False
       | Some (indent, p1) \<Rightarrow>
           level indent \<noteq> kNoLevel \<and>
           (case yamlStack p1 of
              [] \<Rightarrow> False
            | frame # rest \<Rightarrow> level frame < level indent \<and> Push indent p1 = None)))"

text \<open>
  \<open>switch_on h text d\<close>: in the run of \<open>Parse\<close> on \<open>text\<close> with handler \<open>h\<close>, some
  iteration of the loop, after its indentation step, enters the \<open>switch\<close> with the
  cursor at offset \<open>d\<close>.

  \<open>passed_over text d t\<close>: by the characters of the text, what the scanner does from
  offset \<open>d\<close> on takes it beyond offset \<open>t\<close> without a look at the character there.
  Offset \<open>d\<close> holds a \<open>#\<close> or \<open>%\<close> and no end of line lies between \<open>d\<close> and \<open>t\<close>
  (\<open>SkipLine\<close>); or it holds a quote character that does not occur again before \<open>t\<close>
  (\<open>ParseQuoted\<close>); or \<open>d\<close> and \<open>d + 1\<close> hold dashes and \<open>t\<close> comes directly after
  these two or after a third (\<open>SkipStartDocument\<close>, then the increment of the loop); or
  \<open>d\<close> holds a null character (which ends the input).
\<close>

definition switch_on :: "handler \<Rightarrow> string \<Rightarrow> nat \<Rightarrow> bool" where
  "switch_on h text d =
     (\<exists>q q1. loop_reaches h (emit StartDocument (YamlParser_init text)) q \<and> curr q < endp q \<and>
            HandleIndent q = Some (True, q1) \<and> curr q1 = d)"

definition passed_over :: "string \<Rightarrow> nat \<Rightarrow> nat \<Rightarrow> bool" where
  "passed_over text d t =
     (d < t \<and>
      (let c = text ! d in
       if c = CHR ''#'' \<or> c = CHR ''%''
       then list_all (\<lambda>j. \<not> CharIsIn (text ! j) kEndLine) [d + 1 ..< t]
       else if c = single_quote \<or> c = double_quote
       then list_all (\<lambda>j. text ! j \<noteq> c) [d + 1 ..< t]
       else if c = CHR ''-''
       then text ! (d + 1) = CHR ''-'' \<and> (t = d + 2 \<or> t = d + 3 \<and> text ! (d + 2) = CHR ''-'')
       else c = CHR 0x00))"

section \<open>The parser: events, stack and loop\<close>

text \<open>
  \<open>quiet evs\<close>: no call of \<open>onStartDocument\<close> or \<open>onEndDocument\<close> among \<open>evs\<close>.
  \<open>scans p p'\<close>: \<open>p'\<close> comes from \<open>p\<close> by scanning: the same text and indent stack, and
  the handler has received further calls, none of them for the document.
  \<open>grows p p'\<close> says the latter only. All three serve the proofs.
\<close>

definition quiet :: "event list \<Rightarrow> bool" where
  "quiet evs = (StartDocument \<notin> set evs \<and> EndDocument \<notin> set evs)"

definition scans :: "YamlParser \<Rightarrow> YamlParser \<Rightarrow> bool" where
  "scans p p' =
     (yaml p' = yaml p \<and> yamlStack p' = yamlStack p \<and>
      (\<exists>new. events p' = events p @ new \<and> quiet new))"

definition grows :: "YamlParser \<Rightarrow> YamlParser \<Rightarrow> bool" where
  "grows p p' = (\<exists>new. events p' = events p @ new \<and> quiet new)"

lemma quiet_simps [simp]:
  "quiet []" "quiet (xs @ ys) = (quiet xs \<and> quiet ys)"
  "quiet (e # xs) = (e \<noteq> StartDocument \<and> e \<noteq> EndDocument \<and> quiet xs)"
  by (auto simp: quiet_def)

lemma scans_refl [simp]: "scans p p"
  by (simp add: scans_def)

lemma scans_trans: "scans p q \<Longrightarrow> scans q r \<Longrightarrow> scans p r"
  by (auto simp: scans_def)

lemma scans_update [simp]:
  "scans (p\<lparr>curr := n\<rparr>) q = scans p q" "scans p (q\<lparr>curr := n\<rparr>) = scans p q"
  "scans (p\<lparr>endp := n\<rparr>) q = scans p q" "scans p (q\<lparr>endp := n\<rparr>) = scans p q"
  "scans (p\<lparr>col := w\<rparr>) q = scans p q" "scans p (q\<lparr>col := w\<rparr>) = scans p q"
  "scans (p\<lparr>line := w\<rparr>) q = scans p q" "scans p (q\<lparr>line := w\<rparr>) = scans p q"
  "scans (p\<lparr>completeKeyValuePair := b\<rparr>) q = scans p q"
  "scans p (q\<lparr>completeKeyValuePair := b\<rparr>) = scans p q"
  by (simp_all add: scans_def)

lemma scans_emit:
  "e \<noteq> StartDocument \<Longrightarrow> e \<noteq> EndDocument \<Longrightarrow> scans p q \<Longrightarrow> scans p (emit e q)"
  by (auto simp: scans_def emit_def)

lemma scans_HandleMissingNull: "scans p (HandleMissingNull p)"
  by (simp add: scans_def HandleMissingNull_def emit_def)

lemma scans_Error: "scans p (snd (Error msg p))"
  by (simp add: scans_def Error_def emit_def)

lemma scans_onKey: "onKey h str p = (ok, p') \<Longrightarrow> scans p p'"
  by (auto simp: scans_def onKey_def emit_def Let_def)

lemma scans_onScalar: "onScalar h str p = (ok, p') \<Longrightarrow> scans p p'"
  by (auto simp: scans_def onScalar_def emit_def Let_def)

lemma GetIndent_loop_scans: "GetIndent_loop p i = Some (i', p') \<Longrightarrow> scans p p'"
proof (induction p i rule: GetIndent_loop.induct)
  case (1 p indent)
  show ?case using "1.prems" "1.IH"
    by (subst (asm) GetIndent_loop.simps)
       (auto split: if_splits option.splits)
qed

lemma GetIndent_scans: "GetIndent p = Some (i', p') \<Longrightarrow> scans p p'"
  by (auto simp: GetIndent_def split: option.splits dest: GetIndent_loop_scans)

lemma SkipSpaces_loop_scans: "SkipSpaces_loop p = Some p' \<Longrightarrow> scans p p'"
proof (induction p rule: SkipSpaces_loop.induct)
  case (1 p)
  show ?case using "1.prems" "1.IH"
    by (subst (asm) SkipSpaces_loop.simps)
       (auto split: if_splits option.splits)
qed

lemma SkipSpaces_scans: "SkipSpaces p = Some p' \<Longrightarrow> scans p p'"
  by (auto simp: SkipSpaces_def split: option.splits dest!: SkipSpaces_loop_scans
     )

lemma SkipStartDocument_loop_scans: "SkipStartDocument_loop p n = Some (n', p') \<Longrightarrow> scans p p'"
proof (induction p n rule: SkipStartDocument_loop.induct)
  case (1 p dashCount)
  show ?case using "1.prems" "1.IH"
    by (subst (asm) SkipStartDocument_loop.simps)
       (auto split: if_splits option.splits)
qed

lemma SkipStartDocument_scans: "SkipStartDocument p = Some (b, p') \<Longrightarrow> scans p p'"
  by (auto simp: SkipStartDocument_def split: option.splits dest!: SkipStartDocument_loop_scans
     )

lemma SkipLine_scans: "SkipLine p = Some p' \<Longrightarrow> scans p p'"
proof (induction p rule: SkipLine.induct)
  case (1 p)
  show ?case using "1.prems" "1.IH"
    by (subst (asm) SkipLine.simps)
       (auto split: if_splits option.splits)
qed

lemma OutputScalar_scans: "OutputScalar h str p = Some (ok, p') \<Longrightarrow> scans p p'"
  by (auto simp: OutputScalar_def onKey_def onScalar_def HandleMissingNull_def emit_def
        scans_def Let_def split: option.splits if_splits)

lemma ParsePlain_loop_scans: "ParsePlain_loop h s p = Some (ok, p') \<Longrightarrow> scans p p'"
proof (induction h s p rule: ParsePlain_loop.induct)
  case (1 h startStr p)
  have IH1: "curr p < endp p \<Longrightarrow> peek p = Some c \<Longrightarrow> CharIsIn c kEndScalar \<Longrightarrow>
      IsNormalChar p = Some True \<Longrightarrow>
      ParsePlain_loop h startStr (p\<lparr>curr := curr p + 1\<rparr>) = Some (ok, p') \<Longrightarrow>
      scans (p\<lparr>curr := curr p + 1\<rparr>) p'" for c
    using "1.IH"(1) [of c True] by simp
  show ?case using "1.prems" "1.IH"(2) IH1
    by (subst (asm) ParsePlain_loop.simps)
       (auto split: if_splits option.splits dest!: OutputScalar_scans scans_onScalar)
qed

lemma SkipToImportant_scans: "SkipToImportant p = Some p' \<Longrightarrow> scans p p'"
proof (induction p rule: SkipToImportant.induct)
  case (1 p)
  show ?case using "1.prems" "1.IH"
    by (subst (asm) SkipToImportant.simps)
       (auto split: if_splits option.splits)
qed

lemma ParseQuoted_loop_scans: "ParseQuoted_loop h q s p = Some (ok, p') \<Longrightarrow> scans p p'"
proof (induction h q s p rule: ParseQuoted_loop.induct)
  case (1 h quote startStr p)
  show ?case using "1.prems" "1.IH"
    by (subst (asm) ParseQuoted_loop.simps)
       (auto simp: Error_def emit_def scans_def split: if_splits option.splits
             dest!: OutputScalar_scans SkipToImportant_scans)
qed

lemma ParseQuoted_scans: "ParseQuoted h q p = Some (ok, p') \<Longrightarrow> scans p p'"
  by (auto simp: ParseQuoted_def dest!: ParseQuoted_loop_scans)

lemma ParseNode_scans: "ParseNode h p = Some (ok, p') \<Longrightarrow> scans p p'"
  by (auto simp: ParseNode_def ParsePlain_def split: option.splits if_splits
      dest: ParseQuoted_scans ParsePlain_loop_scans)

lemma grows_refl [simp]: "grows p p"
  by (simp add: grows_def)

lemma grows_trans: "grows p q \<Longrightarrow> grows q r \<Longrightarrow> grows p r"
  by (auto simp: grows_def)

lemma scans_grows: "scans p q \<Longrightarrow> grows p q"
  by (auto simp: scans_def grows_def)

lemma grows_update [simp]:
  "grows (p\<lparr>curr := n\<rparr>) q = grows p q" "grows p (q\<lparr>curr := n\<rparr>) = grows p q"
  "grows (p\<lparr>endp := n\<rparr>) q = grows p q" "grows p (q\<lparr>endp := n\<rparr>) = grows p q"
  "grows (p\<lparr>col := w\<rparr>) q = grows p q" "grows p (q\<lparr>col := w\<rparr>) = grows p q"
  "grows (p\<lparr>line := w\<rparr>) q = grows p q" "grows p (q\<lparr>line := w\<rparr>) = grows p q"
  "grows (p\<lparr>completeKeyValuePair := b\<rparr>) q = grows p q"
  "grows p (q\<lparr>completeKeyValuePair := b\<rparr>) = grows p q"
  "grows (p\<lparr>yamlStack := s\<rparr>) q = grows p q" "grows p (q\<lparr>yamlStack := s\<rparr>) = grows p q"
  by (simp_all add: grows_def)

lemma grows_emit:
  "e \<noteq> StartDocument \<Longrightarrow> e \<noteq> EndDocument \<Longrightarrow> grows p q \<Longrightarrow> grows p (emit e q)"
  by (auto simp: grows_def emit_def)

lemma Push_grows: "Push i p = Some p' \<Longrightarrow> grows p p'"
  by (auto simp: Push_def split: if_splits intro!: grows_emit)

lemma Pop_grows: "Pop p = Some (ok, p') \<Longrightarrow> grows p p'"
  by (auto simp: Pop_def Error_def HandleMissingNull_def Let_def grows_def emit_def
      split: if_splits list.splits)

lemma PopWhile_grows: "PopWhile i p = Some (ok, p') \<Longrightarrow> grows p p'"
proof (induction i p rule: PopWhile.induct)
  case (1 indent p)
  show ?case using "1.prems" "1.IH"
    by (subst (asm) PopWhile.simps)
       (auto split: if_splits option.splits list.splits dest!: Pop_grows intro: grows_trans)
qed

lemma HandleIndent_grows: "HandleIndent p = Some (ok, p') \<Longrightarrow> grows p p'"
  by (auto simp: HandleIndent_def split: if_splits option.splits list.splits
      dest!: GetIndent_scans Push_grows PopWhile_grows scans_grows intro: grows_trans)

lemma Dispatch_scans:
  assumes "Dispatch h p = Some (ok, p')"
  shows "scans p p'"
  using assms
proof (cases rule: Dispatch_cases)
  case (node c)
  then show ?thesis by (auto dest: ParseNode_scans)
qed (auto dest!: SkipSpaces_scans SkipStartDocument_scans SkipLine_scans
       intro: scans_trans scans_emit scans_HandleMissingNull
       simp: Error_def scans_def emit_def HandleMissingNull_def)

lemma Iteration_grows: "Iteration h p = Some (ok, p') \<Longrightarrow> grows p p'"
  by (auto simp: Iteration_def split: option.splits if_splits
      dest!: HandleIndent_grows Dispatch_scans scans_grows intro: grows_trans)

lemma Parse_loop_grows: "Parse_loop h p = Some (ok, p') \<Longrightarrow> grows p p'"
proof (induction h p rule: Parse_loop.induct)
  case (1 h p)
  show ?case using "1.prems" "1.IH"
    by (subst (asm) Parse_loop.simps)
       (auto split: if_splits option.splits dest!: Iteration_grows intro: grows_trans)
qed

lemma PopAll_grows: "PopAll p = Some p' \<Longrightarrow> grows p p'"
proof (induction p rule: PopAll.induct)
  case (1 p)
  show ?case using "1.prems" "1.IH"
    by (subst (asm) PopAll.simps)
       (auto split: if_splits option.splits dest!: Pop_grows intro: grows_trans)
qed


lemma stack_ok_Cons:
  "stack_ok (t # rest) \<Longrightarrow> level t < level i \<Longrightarrow> stack_ok (i # t # rest)"
  by (auto simp: stack_ok_def intro: less_trans)

lemma stack_ok_tl:
  "stack_ok (t # rest) \<Longrightarrow> rest \<noteq> [] \<Longrightarrow> stack_ok rest"
  by (auto simp: stack_ok_def)

lemma Push_ok:
  "stack_ok (yamlStack p) \<Longrightarrow> level (hd (yamlStack p)) < level i \<Longrightarrow> Push i p = Some p' \<Longrightarrow>
   stack_ok (yamlStack p')"
proof (cases "yamlStack p")
  case Nil
  then show "stack_ok (yamlStack p) \<Longrightarrow> ?thesis" by (simp add: stack_ok_def)
next
  case (Cons t rest)
  assume "stack_ok (yamlStack p)" "level (hd (yamlStack p)) < level i" "Push i p = Some p'"
  with Cons have "stack_ok (i # t # rest)" "yamlStack p' = i # t # rest"
    by (auto simp: Push_def emit_def split: if_splits intro: stack_ok_Cons)
  then show ?thesis by simp
qed

lemma Pop_ok:
  "stack_ok (yamlStack p) \<Longrightarrow> Pop p = Some (ok, p') \<Longrightarrow> stack_ok (yamlStack p')"
  by (cases "yamlStack p"; cases "tl (yamlStack p)")
     (auto simp: Pop_def Error_def HandleMissingNull_def emit_def Let_def stack_ok_def
           split: if_splits)

lemma PopWhile_ok:
  "PopWhile i p = Some (ok, p') \<Longrightarrow> stack_ok (yamlStack p) \<Longrightarrow> stack_ok (yamlStack p')"
proof (induction i p rule: PopWhile.induct)
  case (1 indent p)
  have IH: "yamlStack p = t # rest \<Longrightarrow> level indent < level t \<Longrightarrow> Pop p = Some (True, b) \<Longrightarrow>
      PopWhile indent b = Some (ok, p') \<Longrightarrow> stack_ok (yamlStack p')" for t rest b
    using "1.IH" [of t rest "(True, b)" True b] Pop_ok [of p True b] "1.prems"(2) by simp
  have P: "Pop p = Some (False, q) \<Longrightarrow> stack_ok (yamlStack q)" for q
    using Pop_ok [of p False q] "1.prems"(2) by simp
  show ?case using "1.prems" IH P
    by (subst (asm) PopWhile.simps)
       (auto split: if_splits option.splits list.splits)
qed

lemma HandleIndent_ok:
  "HandleIndent p = Some (ok, p') \<Longrightarrow> stack_ok (yamlStack p) \<Longrightarrow> stack_ok (yamlStack p')"
proof (cases "col p = 1")
  case False
  then show "HandleIndent p = Some (ok, p') \<Longrightarrow> stack_ok (yamlStack p) \<Longrightarrow> ?thesis"
    by (simp add: HandleIndent_def)
next
  case True
  assume H: "HandleIndent p = Some (ok, p')" and ok: "stack_ok (yamlStack p)"
  from H True obtain i p1 where g: "GetIndent p = Some (i, p1)"
    by (auto simp: HandleIndent_def split: option.splits)
  from GetIndent_scans [OF g] ok have ok1: "stack_ok (yamlStack p1)"
    by (simp add: scans_def)
  then obtain t rest where st: "yamlStack p1 = t # rest"
    by (cases "yamlStack p1") (auto simp: stack_ok_def)
  show ?thesis
  proof (cases "level i = kNoLevel")
    case nolevel: True
    with H True g have "p' = p1" by (simp add: HandleIndent_def)
    with ok1 show ?thesis by simp
  next
    case nl: False
    show ?thesis
    proof (cases "level t < level i")
      case deeper: True
      with H True g st nl have "Push i p1 = Some p'" by (auto simp: HandleIndent_def)
      with Push_ok [of p1 i p'] ok1 st deeper show ?thesis by simp
    next
      case False
      with H True g st nl have "PopWhile i p1 = Some (ok, p')" by (simp add: HandleIndent_def)
      with PopWhile_ok ok1 show ?thesis by blast
    qed
  qed
qed

lemma Iteration_ok:
  assumes "Iteration h p = Some (ok, p')" and "stack_ok (yamlStack p)"
  shows "stack_ok (yamlStack p')"
proof -
  from assms(1) obtain ok1 p1 where hi: "HandleIndent p = Some (ok1, p1)"
    by (auto simp: Iteration_def split: option.splits)
  from HandleIndent_ok [OF hi assms(2)] have ok1: "stack_ok (yamlStack p1)" .
  show ?thesis
  proof (cases ok1)
    case True
    with assms(1) hi have "Dispatch h p1 = Some (ok, p')" by (simp add: Iteration_def)
    from Dispatch_scans [OF this] ok1 show ?thesis by (simp add: scans_def)
  next
    case False
    with assms(1) hi ok1 show ?thesis by (simp add: Iteration_def)
  qed
qed

lemma loop_reaches_ok:
  "loop_reaches h p q \<Longrightarrow> stack_ok (yamlStack p) \<Longrightarrow> stack_ok (yamlStack q)"
  by (induction rule: loop_reaches.induct) (auto dest: Iteration_ok)

lemma loop_reaches_trans:
  "loop_reaches h q r \<Longrightarrow> loop_reaches h p q \<Longrightarrow> loop_reaches h p r"
proof (induction rule: loop_reaches.induct)
  case start
  then show ?case .
next
  case (step r r')
  from step.IH [OF step.prems] step.hyps(2,3) show ?case by (rule loop_reaches.step)
qed

lemma Parse_loop_reaches:
  "Parse_loop h p = Some (ok, p') \<Longrightarrow>
   \<exists>q. loop_reaches h p q \<and> (if ok then p' = q \<and> endp q \<le> curr q
        else curr q < endp q \<and> Iteration h q = Some (False, p'))"
proof (induction h p rule: Parse_loop.induct)
  case (1 h p)
  show ?case
  proof (cases "curr p < endp p")
    case False
    with "1.prems" show ?thesis
      by (subst (asm) Parse_loop.simps) (auto intro: loop_reaches.start)
  next
    case True
    with "1.prems" obtain ok1 p1 where it: "Iteration h p = Some (ok1, p1)"
      by (subst (asm) Parse_loop.simps) (auto split: option.splits)
    show ?thesis
    proof (cases ok1)
      case False
      with "1.prems" True it have "ok = False" "p' = p1"
        by (subst (asm) Parse_loop.simps; simp)+
      with True it False show ?thesis by (auto intro: loop_reaches.start)
    next
      case ok1: True
      let ?n = "p1\<lparr>curr := curr p1 + 1, col := col p1 + 1\<rparr>"
      from "1.prems" True it ok1 have rec: "Parse_loop h ?n = Some (ok, p')"
        by (subst (asm) Parse_loop.simps) simp
      from "1.IH" [OF True it refl ok1 rec] obtain q where
        q: "loop_reaches h ?n q"
           "if ok then p' = q \<and> endp q \<le> curr q
            else curr q < endp q \<and> Iteration h q = Some (False, p')"
        by blast
      have first: "loop_reaches h p ?n"
        using loop_reaches.step [OF loop_reaches.start True] it ok1 by simp
      have "loop_reaches h p q" using q(1) first by (rule loop_reaches_trans)
      with q(2) show ?thesis by blast
    qed
  qed
qed

lemma loop_reaches_Parse_loop:
  "loop_reaches h p q \<Longrightarrow> Parse_loop h p = Parse_loop h q"
proof (induction rule: loop_reaches.induct)
  case start
  show ?case by simp
next
  case (step q q')
  have "Parse_loop h q = Parse_loop h (q'\<lparr>curr := curr q' + 1, col := col q' + 1\<rparr>)"
    by (subst Parse_loop.simps) (simp add: step.hyps)
  with step.IH show ?case by simp
qed

lemma Parse_loop_ok:
  assumes "Parse_loop h p = Some (ok, p')" and "stack_ok (yamlStack p)"
  shows "stack_ok (yamlStack p')"
proof -
  from Parse_loop_reaches [OF assms(1)] obtain q where
    q: "loop_reaches h p q"
       "if ok then p' = q \<and> endp q \<le> curr q
        else curr q < endp q \<and> Iteration h q = Some (False, p')"
    by blast
  from loop_reaches_ok [OF q(1) assms(2)] have "stack_ok (yamlStack q)" .
  with q(2) show ?thesis by (cases ok) (auto dest: Iteration_ok)
qed

lemma PopAll_ok:
  "PopAll p = Some p' \<Longrightarrow> stack_ok (yamlStack p) \<Longrightarrow> stack_ok (yamlStack p')"
proof (induction p rule: PopAll.induct)
  case (1 p)
  show ?case using "1.prems" "1.IH"
    by (subst (asm) PopAll.simps) (auto split: if_splits option.splits dest: Pop_ok)
qed

lemma init_ok: "stack_ok (yamlStack (emit StartDocument (YamlParser_init text)))"
  by (simp add: emit_def YamlParser_init_def stack_ok_def)

lemma Parse_ok:
  assumes "Parse h text = Some (ok, p)"
  shows "stack_ok (yamlStack p)"
proof -
  let ?p0 = "emit StartDocument (YamlParser_init text)"
  from assms obtain ok1 p1 where loop: "Parse_loop h ?p0 = Some (ok1, p1)"
    by (auto simp: Parse_def split: option.splits)
  from Parse_loop_ok [OF loop init_ok] have p1: "stack_ok (yamlStack p1)" .
  show ?thesis
  proof (cases ok1)
    case False
    with assms loop p1 show ?thesis by (auto simp: Parse_def)
  next
    case True
    with assms loop obtain p2 where "PopAll p1 = Some p2" "p = emit EndDocument p2"
      by (auto simp: Parse_def split: option.splits)
    with PopAll_ok p1 show ?thesis by (auto simp: emit_def)
  qed
qed

text \<open>The indentation step on a character that is neither indentation nor the start of a
  line to ignore; and what the loop of \<open>SkipSpaces\<close> skips.\<close>

lemma Pop_keeps:
  "Pop p = Some (ok, p') \<Longrightarrow>
   curr p' = curr p \<and> endp p' = endp p \<and> yaml p' = yaml p \<and> line p' = line p \<and> col p' = col p"
  by (auto simp: Pop_def Error_def HandleMissingNull_def emit_def Let_def
      split: if_splits list.splits)

lemma Pop_inner:
  "yamlStack p = t # rest \<Longrightarrow> rest \<noteq> [] \<Longrightarrow> \<exists>p1. Pop p = Some (True, p1) \<and> yamlStack p1 = rest"
  by (cases "completeKeyValuePair p")
     (simp_all add: Pop_def HandleMissingNull_def emit_def Let_def)

lemma PopWhile_root:
  "stack_ok (yamlStack p) \<Longrightarrow> level i = 0 \<Longrightarrow>
   \<exists>p'. PopWhile i p = Some (True, p') \<and> curr p' = curr p \<and> endp p' = endp p \<and>
        yaml p' = yaml p \<and> line p' = line p \<and> col p' = col p \<and> grows p p'"
proof (induction "length (yamlStack p)" arbitrary: p rule: less_induct)
  case less
  from less.prems(1) obtain t rest where st: "yamlStack p = t # rest"
    by (cases "yamlStack p") (auto simp: stack_ok_def)
  show ?case
  proof (cases "level i < level t")
    case False
    with st show ?thesis by (subst PopWhile.simps) simp
  next
    case True
    with less.prems(2) have "level t \<noteq> 0" by auto
    with st less.prems(1) have ne: "rest \<noteq> []" by (auto simp: stack_ok_def)
    from Pop_inner [OF st ne] obtain p1 where
      pop: "Pop p = Some (True, p1)" and st1: "yamlStack p1 = rest"
      by blast
    from Pop_ok [OF less.prems(1) pop] have ok1: "stack_ok (yamlStack p1)" .
    have "length (yamlStack p1) < length (yamlStack p)" using st st1 by simp
    from less.hyps [OF this ok1 less.prems(2)] obtain p' where
      p': "PopWhile i p1 = Some (True, p')" "curr p' = curr p1" "endp p' = endp p1"
          "yaml p' = yaml p1" "line p' = line p1" "col p' = col p1" "grows p1 p'"
      by blast
    have "PopWhile i p = Some (True, p')"
      using st True pop p'(1) by (subst PopWhile.simps) simp
    with p' Pop_keeps [OF pop] Pop_grows [OF pop] show ?thesis
      by (auto intro: grows_trans)
  qed
qed

lemma GetIndent_loop_stop:
  "peek p = Some c \<Longrightarrow> \<not> CharIsIn c kIndentChars \<Longrightarrow> GetIndent_loop p i = Some (i, p)"
  by (subst GetIndent_loop.simps) simp

lemma HandleIndent_at_other:
  assumes ok: "stack_ok (yamlStack p)" and c: "peek p = Some c"
    and ni: "\<not> CharIsIn c kIndentChars" and ng: "\<not> CharIsIn c kIgnoreIndent"
  shows "\<exists>p'. HandleIndent p = Some (True, p') \<and> curr p' = curr p \<and> endp p' = endp p \<and>
        yaml p' = yaml p \<and> line p' = line p \<and> col p' = col p \<and> grows p p'"
proof (cases "col p = 1")
  case False
  then show ?thesis by (simp add: HandleIndent_def)
next
  case True
  have g: "GetIndent p = Some (\<lparr>level = 0, isSequence = False\<rparr>, p)"
    using c ni ng by (simp add: GetIndent_def GetIndent_loop_stop)
  from ok obtain t rest where st: "yamlStack p = t # rest"
    by (cases "yamlStack p") (auto simp: stack_ok_def)
  have "HandleIndent p = PopWhile \<lparr>level = 0, isSequence = False\<rparr> p"
    using True g st by (simp add: HandleIndent_def kNoLevel_def)
  with PopWhile_root [OF ok, of "\<lparr>level = 0, isSequence = False\<rparr>"] show ?thesis by simp
qed

lemma SkipSpaces_loop_run:
  "endp q \<le> length (yaml q) \<Longrightarrow>
   \<exists>q'. SkipSpaces_loop q = Some q' \<and> curr q \<le> curr q' \<and> events q' = events q \<and>
        yaml q' = yaml q \<and> endp q' = endp q \<and>
        (curr q \<le> endp q \<longrightarrow> curr q' \<le> endp q) \<and>
        (\<forall>i. curr q \<le> i \<and> i < curr q' \<longrightarrow> yaml q ! i = CHR '' '') \<and>
        (curr q' < endp q \<longrightarrow> yaml q ! curr q' \<noteq> CHR '' '')"
proof (induction q rule: SkipSpaces_loop.induct)
  case (1 q)
  show ?case
  proof (cases "curr q < endp q \<and> yaml q ! curr q = CHR '' ''")
    case False
    with "1.prems" show ?thesis
      by (subst SkipSpaces_loop.simps) (auto simp: peek_def char_at_def)
  next
    case True
    let ?n = "q\<lparr>curr := curr q + 1, col := col q + 1\<rparr>"
    have pk: "peek q = Some (CHR '' '')" using True "1.prems" by (simp add: peek_def char_at_def)
    from "1.IH" [OF _ pk] True "1.prems" obtain q' where
      q': "SkipSpaces_loop ?n = Some q'" "curr q + 1 \<le> curr q'" "events q' = events q"
          "yaml q' = yaml q" "endp q' = endp q" "curr q' \<le> endp q"
          "\<forall>i. curr q + 1 \<le> i \<and> i < curr q' \<longrightarrow> yaml q ! i = CHR '' ''"
          "curr q' < endp q \<longrightarrow> yaml q ! curr q' \<noteq> CHR '' ''"
      by auto
    have "SkipSpaces_loop q = Some q'"
      using True pk q'(1) by (subst SkipSpaces_loop.simps) simp
    moreover have "\<forall>i. curr q \<le> i \<and> i < curr q' \<longrightarrow> yaml q ! i = CHR '' ''"
    proof (intro allI impI)
      fix i assume "curr q \<le> i \<and> i < curr q'"
      then show "yaml q ! i = CHR '' ''" using True q'(7) by (cases "i = curr q") auto
    qed
    ultimately show ?thesis using q' by auto
  qed
qed

text \<open>
  In a run of \<open>Parse\<close> the loop of pops at a dedent stops at the sentinel frame, whose
  level no indentation is below: the indentation step never takes the branch of \<open>Pop\<close>
  that reports "Too many closing braces or brackets".
\<close>

lemma PopWhile_continues:
  "stack_ok (yamlStack p) \<Longrightarrow> PopWhile i p = Some (ok, p') \<Longrightarrow> ok"
proof (induction "length (yamlStack p)" arbitrary: p rule: less_induct)
  case less
  from less.prems(1) obtain t rest where st: "yamlStack p = t # rest"
    by (cases "yamlStack p") (auto simp: stack_ok_def)
  show ?case
  proof (cases "level i < level t")
    case False
    with st less.prems(2) show ?thesis by (subst (asm) PopWhile.simps) simp
  next
    case True
    then have "level t \<noteq> 0" by auto
    with st less.prems(1) have ne: "rest \<noteq> []" by (auto simp: stack_ok_def)
    from Pop_inner [OF st ne] obtain p1 where
      pop: "Pop p = Some (True, p1)" and st1: "yamlStack p1 = rest"
      by blast
    from Pop_ok [OF less.prems(1) pop] have ok1: "stack_ok (yamlStack p1)" .
    have shorter: "length (yamlStack p1) < length (yamlStack p)" using st st1 by simp
    have "PopWhile i p1 = Some (ok, p')"
      using less.prems(2) st True pop by (subst (asm) PopWhile.simps) simp
    from less.hyps [OF shorter ok1 this] show ?thesis .
  qed
qed

lemma indentation_never_refuses:
  assumes "loop_reaches h (emit StartDocument (YamlParser_init text)) p"
    and "HandleIndent p = Some (ok, p')"
  shows ok
proof -
  have sp: "stack_ok (yamlStack p)" using assms(1) init_ok by (rule loop_reaches_ok)
  show ?thesis
  proof (cases "col p = 1")
    case False
    with assms(2) show ?thesis by (simp add: HandleIndent_def)
  next
    case True
    with assms(2) obtain i p1 where g: "GetIndent p = Some (i, p1)"
      by (auto simp: HandleIndent_def split: option.splits)
    from GetIndent_scans [OF g] sp have s1: "stack_ok (yamlStack p1)" by (simp add: scans_def)
    then obtain t rest where st: "yamlStack p1 = t # rest"
      by (cases "yamlStack p1") (auto simp: stack_ok_def)
    from assms(2) True g st
    have "ok \<or> PopWhile i p1 = Some (ok, p')"
      by (auto simp: HandleIndent_def split: if_splits)
    with PopWhile_continues [OF s1] show ?thesis by blast
  qed
qed

subsection \<open>Every read lies in the text or on its terminating null character\<close>

text \<open>
  With the cursor inside the text, each function of the parser has a result; the one
  branch without a result that a run of \<open>Parse\<close> can take is the \<open>assert\<close> of
  \<open>YamlStack::push\<close>.
\<close>

lemma peek_Some: "curr p \<le> length (yaml p) \<Longrightarrow> \<exists>c. peek p = Some c"
  by (simp add: peek_def char_at_def)

lemma peek_update [simp]:
  "peek (p\<lparr>col := w\<rparr>) = peek p" "peek (p\<lparr>line := w\<rparr>) = peek p"
  "peek (p\<lparr>endp := n\<rparr>) = peek p" "peek (p\<lparr>completeKeyValuePair := b\<rparr>) = peek p"
  "peek (p\<lparr>yamlStack := s\<rparr>) = peek p" "peek (p\<lparr>events := e\<rparr>) = peek p"
  "peek (emit ev p) = peek p" "peek (HandleMissingNull p) = peek p"
  by (simp_all add: peek_def char_at_def emit_def HandleMissingNull_def)

lemma GetIndent_loop_total:
  "endp p \<le> length (yaml p) \<Longrightarrow> \<exists>i' p'. GetIndent_loop p i = Some (i', p')"
proof (induction p i rule: GetIndent_loop.induct)
  case (1 p indent)
  show ?case using "1.prems" "1.IH"
    by (subst GetIndent_loop.simps) (auto simp: peek_def char_at_def)
qed

lemma GetIndent_total:
  assumes "curr p \<le> endp p" and "endp p \<le> length (yaml p)"
  shows "\<exists>i' p'. GetIndent p = Some (i', p')"
proof -
  from GetIndent_loop_total [OF assms(2)] obtain i' p' where
    l: "GetIndent_loop p \<lparr>level = 0, isSequence = False\<rparr> = Some (i', p')" by blast
  from GetIndent_loop_pos [OF l] GetIndent_loop_scans [OF l] assms
  have "curr p' \<le> length (yaml p')" by (simp add: scans_def)
  from peek_Some [OF this] l show ?thesis by (auto simp: GetIndent_def)
qed

lemma SkipSpaces_loop_total:
  "endp p \<le> length (yaml p) \<Longrightarrow> \<exists>p'. SkipSpaces_loop p = Some p'"
proof (induction p rule: SkipSpaces_loop.induct)
  case (1 p)
  show ?case using "1.prems" "1.IH"
    by (subst SkipSpaces_loop.simps) (auto simp: peek_def char_at_def)
qed

lemma SkipSpaces_total: "endp p \<le> length (yaml p) \<Longrightarrow> \<exists>p'. SkipSpaces p = Some p'"
  using SkipSpaces_loop_total [of "p\<lparr>curr := curr p + 1\<rparr>"] by (auto simp: SkipSpaces_def)

lemma SkipStartDocument_loop_total:
  "endp p \<le> length (yaml p) \<Longrightarrow> \<exists>n' p'. SkipStartDocument_loop p n = Some (n', p')"
proof (induction p n rule: SkipStartDocument_loop.induct)
  case (1 p dashCount)
  show ?case using "1.prems" "1.IH"
    by (subst SkipStartDocument_loop.simps) (auto simp: peek_def char_at_def)
qed

lemma SkipStartDocument_total:
  "endp p \<le> length (yaml p) \<Longrightarrow> \<exists>b p'. SkipStartDocument p = Some (b, p')"
  using SkipStartDocument_loop_total [of "p\<lparr>curr := curr p + 1\<rparr>" 1]
  by (auto simp: SkipStartDocument_def)

lemma SkipLine_total:
  "endp p \<le> length (yaml p) \<Longrightarrow> 0 < curr p \<Longrightarrow> \<exists>p'. SkipLine p = Some p'"
proof (induction p rule: SkipLine.induct)
  case (1 p)
  show ?case using "1.prems" "1.IH"
    by (subst SkipLine.simps) (auto simp: peek_def char_at_def)
qed

lemma SkipLine_total_first:
  assumes "endp p \<le> length (yaml p)" and "peek p = Some c" and "\<not> CharIsIn c kEndLine"
  shows "\<exists>p'. SkipLine p = Some p'"
proof (cases "curr p < endp p")
  case False
  then show ?thesis by (subst SkipLine.simps) simp
next
  case True
  from SkipLine_total [of "p\<lparr>curr := curr p + 1\<rparr>"] assms(1) obtain p' where
    "SkipLine (p\<lparr>curr := curr p + 1\<rparr>) = Some p'" by auto
  with True assms(2,3) show ?thesis by (subst SkipLine.simps) simp
qed

lemma OutputScalar_total:
  "curr p \<le> length (yaml p) \<Longrightarrow> 0 < curr p \<Longrightarrow> \<exists>ok p'. OutputScalar h str p = Some (ok, p')"
  by (auto simp: OutputScalar_def peek_def char_at_def Let_def onKey_def onScalar_def)

lemma IsNormalChar_total:
  "curr p < endp p \<Longrightarrow> endp p \<le> length (yaml p) \<Longrightarrow> \<exists>b. IsNormalChar p = Some b"
  by (auto simp: IsNormalChar_def PeekNext_def peek_def char_at_def)

lemma ExtractStr_total:
  "start \<le> e \<Longrightarrow> e \<le> length buf \<Longrightarrow> \<exists>str. ExtractStr buf start e trim = Some str"
  by (simp add: ExtractStr_def Let_def)

lemma ParsePlain_loop_total:
  "s < curr p \<Longrightarrow> curr p \<le> endp p \<Longrightarrow> endp p \<le> length (yaml p) \<Longrightarrow>
   \<exists>ok p'. ParsePlain_loop h s p = Some (ok, p')"
proof (induction h s p rule: ParsePlain_loop.induct)
  case (1 h startStr p)
  show ?case
  proof (cases "curr p < endp p")
    case False
    from ExtractStr_total [of startStr "curr p" "yaml p" Yes] "1.prems" obtain str where
      "ExtractStr (yaml p) startStr (curr p) Yes = Some str" by auto
    with False show ?thesis
      by (subst ParsePlain_loop.simps) (auto simp: onScalar_def Let_def)
  next
    case True
    with "1.prems" obtain c where c: "peek p = Some c" by (auto simp: peek_def char_at_def)
    from IsNormalChar_total [OF True] "1.prems" obtain b where b: "IsNormalChar p = Some b" by auto
    from ExtractStr_total [of startStr "curr p" "yaml p" Yes] "1.prems" obtain str where
      str: "ExtractStr (yaml p) startStr (curr p) Yes = Some str" by auto
    let ?next = "p\<lparr>curr := curr p + 1\<rparr>"
    have pre: "startStr < curr ?next" "curr ?next \<le> endp ?next" "endp ?next \<le> length (yaml ?next)"
      using True "1.prems" by auto
    show ?thesis
    proof (cases "CharIsIn c kEndScalar")
      case False
      from "1.IH"(2) [OF True c False pre] obtain ok p' where
        "ParsePlain_loop h startStr ?next = Some (ok, p')" by blast
      with True c False show ?thesis by (subst ParsePlain_loop.simps) simp
    next
      case stop: True
      show ?thesis
      proof (cases b)
        case True
        from "1.IH"(1) [OF \<open>curr p < endp p\<close> c stop b True pre] obtain ok p' where
          "ParsePlain_loop h startStr ?next = Some (ok, p')" by blast
        with \<open>curr p < endp p\<close> c stop b True show ?thesis
          by (subst ParsePlain_loop.simps) simp
      next
        case False
        let ?out = "p\<lparr>col := col p + of_nat (curr p - startStr)\<rparr>"
        from OutputScalar_total [of ?out h str] "1.prems" True obtain ok p' where
          "OutputScalar h str ?out = Some (ok, p')" by auto
        with True c stop b False str show ?thesis
          by (subst ParsePlain_loop.simps) simp
      qed
    qed
  qed
qed

lemma ParsePlain_total:
  assumes "peek p = Some c" and "\<not> CharIsIn c kEndScalar"
    and "curr p \<le> endp p" and "endp p \<le> length (yaml p)"
  shows "\<exists>ok p'. ParsePlain h p = Some (ok, p')"
proof (cases "curr p < endp p")
  case False
  from ExtractStr_total [of "curr p" "curr p" "yaml p" Yes] assms obtain str where
    "ExtractStr (yaml p) (curr p) (curr p) Yes = Some str" by auto
  with False show ?thesis
    unfolding ParsePlain_def by (subst ParsePlain_loop.simps) (auto simp: onScalar_def Let_def)
next
  case True
  from ParsePlain_loop_total [of "curr p" "p\<lparr>curr := curr p + 1\<rparr>" h] True assms(4)
  obtain ok p' where "ParsePlain_loop h (curr p) (p\<lparr>curr := curr p + 1\<rparr>) = Some (ok, p')"
    by auto
  with True assms(1,2) show ?thesis
    unfolding ParsePlain_def by (subst ParsePlain_loop.simps) simp
qed

lemma SkipToImportant_total:
  "endp p \<le> length (yaml p) \<Longrightarrow> \<exists>p'. SkipToImportant p = Some p'"
proof (induction p rule: SkipToImportant.induct)
  case (1 p)
  show ?case using "1.prems" "1.IH"
    by (subst SkipToImportant.simps) (auto simp: peek_def char_at_def)
qed

lemma SkipToImportant_inside:
  "SkipToImportant p = Some p' \<Longrightarrow> curr p \<le> endp p \<Longrightarrow> curr p' \<le> endp p \<and> yaml p' = yaml p"
proof (induction p rule: SkipToImportant.induct)
  case (1 p)
  show ?case using "1.prems" "1.IH"
    by (subst (asm) SkipToImportant.simps) (auto split: if_splits option.splits)
qed

lemma ParseQuoted_loop_total:
  "0 < s \<Longrightarrow> s \<le> curr p \<Longrightarrow> curr p \<le> endp p \<Longrightarrow> endp p \<le> length (yaml p) \<Longrightarrow>
   \<exists>ok p'. ParseQuoted_loop h q s p = Some (ok, p')"
proof (induction h q s p rule: ParseQuoted_loop.induct)
  case (1 h quote startStr p)
  show ?case
  proof (cases "curr p < endp p")
    case False
    have "startStr - 1 \<le> min (curr p) (startStr + kMaxScalarStringPrefixForErrorMsg)"
      and "min (curr p) (startStr + kMaxScalarStringPrefixForErrorMsg) \<le> length (yaml p)"
      using "1.prems" by auto
    from ExtractStr_total [OF this] obtain str where "ExtractStr (yaml p) (startStr - 1)
        (min (curr p) (startStr + kMaxScalarStringPrefixForErrorMsg)) No = Some str"
      by blast
    with False show ?thesis
      by (subst ParseQuoted_loop.simps) (auto simp: Error_def)
  next
    case True
    with "1.prems" obtain c where c: "peek p = Some c" by (auto simp: peek_def char_at_def)
    let ?next = "p\<lparr>curr := curr p + 1\<rparr>"
    show ?thesis
    proof (cases "c = quote")
      case False
      have "\<exists>ok p'. ParseQuoted_loop h quote startStr ?next = Some (ok, p')"
        by (rule "1.IH" [OF True c False]) (use True "1.prems" in auto)
      with True c False show ?thesis by (subst ParseQuoted_loop.simps) simp
    next
      case found: True
      from ExtractStr_total [of startStr "curr p" "yaml p" No] "1.prems" obtain str where
        str: "ExtractStr (yaml p) startStr (curr p) No = Some str" by auto
      from SkipToImportant_total [of ?next] "1.prems" obtain p1 where
        p1: "SkipToImportant ?next = Some p1" by auto
      from SkipToImportant_inside [OF p1] SkipToImportant_pos [OF p1] True "1.prems"
      have b: "curr p1 \<le> length (yaml p1)" "0 < curr p1" by auto
      let ?out = "p1\<lparr>col := col p1 + of_nat (curr p1 - startStr + kQuoteChars)\<rparr>"
      from OutputScalar_total [of ?out h str] b obtain ok p' where
        "OutputScalar h str ?out = Some (ok, p')" by auto
      with True c found str p1 show ?thesis by (subst ParseQuoted_loop.simps) simp
    qed
  qed
qed

lemma ParseQuoted_total:
  "curr p < endp p \<Longrightarrow> endp p \<le> length (yaml p) \<Longrightarrow> \<exists>ok p'. ParseQuoted h q p = Some (ok, p')"
  using ParseQuoted_loop_total [of "curr p + 1" "p\<lparr>curr := curr p + 1\<rparr>" h q]
  by (auto simp: ParseQuoted_def)

lemma ParseNode_total:
  assumes "peek p = Some c" and "\<not> CharIsIn c kEndScalar" and "c \<noteq> CHR 0x00"
    and "curr p \<le> endp p" and "endp p = length (yaml p)"
  shows "\<exists>ok p'. ParseNode h p = Some (ok, p')"
proof -
  from assms(1,3,4,5) have inside: "curr p < endp p"
    by (auto simp: peek_def char_at_def split: if_splits)
  show ?thesis
    using assms ParseQuoted_total [OF inside, of h] ParsePlain_total [OF assms(1,2), of h]
    by (auto simp: ParseNode_def)
qed

lemma yaml_keeps [simp]:
  "yaml (emit e p) = yaml p" "yaml (HandleMissingNull p) = yaml p"
  by (simp_all add: emit_def HandleMissingNull_def)

lemma PeekNext_total:
  "endp p \<le> length (yaml p) \<Longrightarrow> \<exists>n. PeekNext p = Some n"
  by (auto simp: PeekNext_def char_at_def)

lemma Dispatch_total:
  assumes inside: "curr p \<le> endp p" and whole: "endp p = length (yaml p)"
  shows "\<exists>ok p'. Dispatch h p = Some (ok, p')"
proof -
  from inside whole obtain c where c: "peek p = Some c" using peek_Some [of p] by auto
  have le: "endp p \<le> length (yaml p)" using whole by simp
  have sp: "\<exists>p'. SkipSpaces q = Some p'" if "endp q = endp p" "yaml q = yaml p" for q
    using SkipSpaces_total [of q] that whole by simp
  consider (dash) "c = CHR ''-''" | (colon) "c = CHR '':''" | (comma) "c = CHR '',''"
    | (lbr) "c = CHR ''[''" | (rbr) "c = CHR '']''" | (lbc) "c = CHR ''{''" | (rbc) "c = CHR ''}''"
    | (hash) "c = CHR ''#''" | (percent) "c = CHR ''%''" | (nl) "c = CHR 0x0A"
    | (cr) "c = CHR 0x0D" | (blank) "c = CHR '' ''" | (nul) "c = CHR 0x00" | (tab) "c = CHR 0x09"
    | (other) "c \<noteq> CHR ''-''" "c \<noteq> CHR '':''" "c \<noteq> CHR '',''" "c \<noteq> CHR ''[''" "c \<noteq> CHR '']''"
        "c \<noteq> CHR ''{''" "c \<noteq> CHR ''}''" "c \<noteq> CHR ''#''" "c \<noteq> CHR ''%''" "c \<noteq> CHR 0x0A"
        "c \<noteq> CHR 0x0D" "c \<noteq> CHR '' ''" "c \<noteq> CHR 0x00" "c \<noteq> CHR 0x09"
    by blast
  then show ?thesis
  proof cases
    case dash
    from PeekNext_total [OF le] obtain n where n: "PeekNext p = Some n" by blast
    have ne: "\<not> CharIsIn c kEndScalar" "c \<noteq> CHR 0x00"
      using dash by (simp_all add: CharIsIn_def kEndScalar_def)
    show ?thesis
    proof (cases "n = CHR '' ''")
      case True
      have "endp (emit StartMapping p) = endp p" "yaml (emit StartMapping p) = yaml p"
        by simp_all
      from sp [OF this] obtain s1 where "SkipSpaces (emit StartMapping p) = Some s1" by blast
      with c dash n True have "Dispatch h p = Some (True, s1)" by (simp add: Dispatch_def)
      then show ?thesis by blast
    next
      case ns: False
      show ?thesis
      proof (cases "n = CHR ''-''")
        case True
        from SkipStartDocument_total [OF le] obtain b s2 where
          "SkipStartDocument p = Some (b, s2)" by blast
        with c dash n True have "Dispatch h p = Some (True, s2)" by (simp add: Dispatch_def)
        then show ?thesis by blast
      next
        case False
        from ParseNode_total [OF c ne inside whole, of h] obtain ok s3 where
          "ParseNode h p = Some (ok, s3)" by blast
        with c dash n ns False have "Dispatch h p = Some (ok, s3)" by (simp add: Dispatch_def)
        then show ?thesis by blast
      qed
    qed
  next
    case colon
    have "endp (p) = endp p" "yaml (p) = yaml p" by simp_all
    from sp [OF this] obtain s1 where "SkipSpaces (p) = Some s1" by blast
    with c colon have "Dispatch h p = Some (True, s1)" by (simp add: Dispatch_def)
    then show ?thesis by blast
  next
    case comma
    have "endp (p) = endp p" "yaml (p) = yaml p" by simp_all
    from sp [OF this] obtain s1 where "SkipSpaces (p) = Some s1" by blast
    with c comma have "Dispatch h p = Some (True, s1)" by (simp add: Dispatch_def)
    then show ?thesis by blast
  next
    case lbr
    have "endp (emit StartSequence (p\<lparr>completeKeyValuePair := True\<rparr>)) = endp p" "yaml (emit StartSequence (p\<lparr>completeKeyValuePair := True\<rparr>)) = yaml p" by simp_all
    from sp [OF this] obtain s1 where "SkipSpaces (emit StartSequence (p\<lparr>completeKeyValuePair := True\<rparr>)) = Some s1" by blast
    with c lbr have "Dispatch h p = Some (True, s1)" by (simp add: Dispatch_def)
    then show ?thesis by blast
  next
    case rbr
    have "endp (emit EndSequence (HandleMissingNull p)) = endp p" "yaml (emit EndSequence (HandleMissingNull p)) = yaml p" by simp_all
    from sp [OF this] obtain s1 where "SkipSpaces (emit EndSequence (HandleMissingNull p)) = Some s1" by blast
    with c rbr have "Dispatch h p = Some (True, s1)" by (simp add: Dispatch_def)
    then show ?thesis by blast
  next
    case lbc
    have "endp (emit StartMapping (p\<lparr>completeKeyValuePair := True\<rparr>)) = endp p" "yaml (emit StartMapping (p\<lparr>completeKeyValuePair := True\<rparr>)) = yaml p" by simp_all
    from sp [OF this] obtain s1 where "SkipSpaces (emit StartMapping (p\<lparr>completeKeyValuePair := True\<rparr>)) = Some s1" by blast
    with c lbc have "Dispatch h p = Some (True, s1)" by (simp add: Dispatch_def)
    then show ?thesis by blast
  next
    case rbc
    have "endp (emit EndMapping (HandleMissingNull p)) = endp p" "yaml (emit EndMapping (HandleMissingNull p)) = yaml p" by simp_all
    from sp [OF this] obtain s1 where "SkipSpaces (emit EndMapping (HandleMissingNull p)) = Some s1" by blast
    with c rbc have "Dispatch h p = Some (True, s1)" by (simp add: Dispatch_def)
    then show ?thesis by blast
  next
    case hash
    then have "\<not> CharIsIn c kEndLine" by (simp add: CharIsIn_def kEndLine_def)
    from SkipLine_total_first [OF le c this] obtain s1 where "SkipLine p = Some s1" by blast
    with c hash have "Dispatch h p = Some (True, s1)" by (simp add: Dispatch_def)
    then show ?thesis by blast
  next
    case percent
    then have "\<not> CharIsIn c kEndLine" by (simp add: CharIsIn_def kEndLine_def)
    from SkipLine_total_first [OF le c this] obtain s1 where "SkipLine p = Some s1" by blast
    with c percent have "Dispatch h p = Some (True, s1)" by (simp add: Dispatch_def)
    then show ?thesis by blast
  next
    case nl
    with c show ?thesis by (auto simp: Dispatch_def)
  next
    case cr
    with c show ?thesis by (auto simp: Dispatch_def)
  next
    case blank
    with c show ?thesis by (auto simp: Dispatch_def)
  next
    case nul
    with c show ?thesis by (auto simp: Dispatch_def)
  next
    case tab
    with c have "Dispatch h p = Some (Error ''Avoid tabs in YAML files'' p)"
      by (simp add: Dispatch_def)
    then show ?thesis by (auto simp: Error_def)
  next
    case other
    have ne: "\<not> CharIsIn c kEndScalar" using other by (simp add: CharIsIn_def kEndScalar_def)
    show ?thesis
    proof (cases "CharIsIn c kUnsupported")
      case True
      with c other have "Dispatch h p = Some (Error ([c] @ '' directive not supported'') p)"
        by (simp add: Dispatch_def)
      then show ?thesis by (auto simp: Error_def)
    next
      case False
      from ParseNode_total [OF c ne other(13) inside whole, of h] obtain ok s3 where
        "ParseNode h p = Some (ok, s3)" by blast
      with c other False have "Dispatch h p = Some (ok, s3)" by (simp add: Dispatch_def)
      then show ?thesis by blast
    qed
  qed
qed

lemma PopWhile_total:
  "stack_ok (yamlStack p) \<Longrightarrow>
   \<exists>p'. PopWhile i p = Some (True, p') \<and> curr p' = curr p \<and> endp p' = endp p \<and>
        yaml p' = yaml p \<and> line p' = line p \<and> col p' = col p"
proof (induction "length (yamlStack p)" arbitrary: p rule: less_induct)
  case less
  from less.prems(1) obtain t rest where st: "yamlStack p = t # rest"
    by (cases "yamlStack p") (auto simp: stack_ok_def)
  show ?case
  proof (cases "level i < level t")
    case False
    with st show ?thesis by (subst PopWhile.simps) simp
  next
    case True
    then have "level t \<noteq> 0" by auto
    with st less.prems(1) have ne: "rest \<noteq> []" by (auto simp: stack_ok_def)
    from Pop_inner [OF st ne] obtain p1 where
      pop: "Pop p = Some (True, p1)" and st1: "yamlStack p1 = rest"
      by blast
    from Pop_ok [OF less.prems(1) pop] have ok1: "stack_ok (yamlStack p1)" .
    have "length (yamlStack p1) < length (yamlStack p)" using st st1 by simp
    from less.hyps [OF this ok1] obtain p' where
      p': "PopWhile i p1 = Some (True, p')" "curr p' = curr p1" "endp p' = endp p1"
          "yaml p' = yaml p1" "line p' = line p1" "col p' = col p1"
      by blast
    have "PopWhile i p = Some (True, p')"
      using st True pop p'(1) by (subst PopWhile.simps) simp
    with p' Pop_keeps [OF pop] show ?thesis by auto
  qed
qed

lemma HandleIndent_total:
  assumes "curr p \<le> endp p" and "endp p \<le> length (yaml p)" and ok: "stack_ok (yamlStack p)"
  shows "(\<exists>p'. HandleIndent p = Some (True, p') \<and> yaml p' = yaml p \<and> endp p' = endp p \<and>
            curr p \<le> curr p' \<and> curr p' \<le> endp p) \<or> push_refused p"
proof (cases "col p = 1")
  case False
  with assms(1) show ?thesis by (simp add: HandleIndent_def)
next
  case True
  from GetIndent_total [OF assms(1,2)] obtain i p1 where g: "GetIndent p = Some (i, p1)" by blast
  from GetIndent_scans [OF g] GetIndent_pos [OF g] assms(1)
  have f1: "yaml p1 = yaml p" "yamlStack p1 = yamlStack p" "endp p1 = endp p"
    "curr p \<le> curr p1" "curr p1 \<le> endp p"
    by (auto simp: scans_def)
  from ok f1(2) have ok1: "stack_ok (yamlStack p1)" by simp
  then obtain t rest where st: "yamlStack p1 = t # rest"
    by (cases "yamlStack p1") (auto simp: stack_ok_def)
  show ?thesis
  proof (cases "level i = kNoLevel")
    case nolevel: True
    with True g f1 show ?thesis by (simp add: HandleIndent_def)
  next
    case nl: False
    show ?thesis
    proof (cases "level t < level i")
      case deeper: True
      show ?thesis
      proof (cases "Push i p1")
        case None
        with True g nl st deeper show ?thesis by (simp add: push_refused_def)
      next
        case (Some p2)
        with True g nl st deeper have "HandleIndent p = Some (True, p2)"
          by (simp add: HandleIndent_def)
        moreover from Some have "yaml p2 = yaml p1" "endp p2 = endp p1" "curr p2 = curr p1"
          by (auto simp: Push_def emit_def split: if_splits)
        ultimately show ?thesis using f1 by simp
      qed
    next
      case False
      from PopWhile_total [OF ok1, of i] obtain p2 where
        "PopWhile i p1 = Some (True, p2)" "curr p2 = curr p1" "endp p2 = endp p1" "yaml p2 = yaml p1"
        by blast
      moreover from True g nl st False have "HandleIndent p = PopWhile i p1"
        by (simp add: HandleIndent_def)
      ultimately show ?thesis using f1 by simp
    qed
  qed
qed

lemma Iteration_total:
  assumes "curr p < endp p" and "endp p = length (yaml p)" and "stack_ok (yamlStack p)"
  shows "(\<exists>ok p'. Iteration h p = Some (ok, p')) \<or> push_refused p"
proof -
  have "curr p \<le> endp p" "endp p \<le> length (yaml p)" using assms(1,2) by simp_all
  from HandleIndent_total [OF this assms(3)]
  consider p1 where "HandleIndent p = Some (True, p1)" "yaml p1 = yaml p" "endp p1 = endp p"
      "curr p1 \<le> endp p"
    | "push_refused p"
    by blast
  then show ?thesis
  proof cases
    case 1
    have "curr p1 \<le> endp p1" "endp p1 = length (yaml p1)" using 1 assms(2) by simp_all
    from Dispatch_total [OF this, of h] obtain ok p' where
      "Dispatch h p1 = Some (ok, p')" by blast
    with 1(1) show ?thesis by (simp add: Iteration_def)
  next
    case 2
    then show ?thesis by simp
  qed
qed

lemma Dispatch_endp:
  assumes "Dispatch h p = Some (ok, p')"
  shows "endp p' = endp p \<or> (peek p = Some (CHR 0x00) \<and> endp p' = curr p \<and> curr p' = curr p)"
  using assms
proof (cases rule: Dispatch_cases)
  case (node c)
  from ParseNode_pos [OF node(4) node(1,2)] show ?thesis by simp
next
  case (comment c p1)
  then have "\<not> CharIsIn c kEndLine" by (auto simp: CharIsIn_def kEndLine_def)
  from SkipLine_pos [OF comment(3,1) this] comment(4) show ?thesis by simp
next
  case nul
  then show ?thesis by simp
next
  case (error msg)
  then show ?thesis by (simp add: Error_def)
next
  case (marker b p1)
  from SkipStartDocument_pos [OF marker(3)] marker(4) show ?thesis by simp
qed (auto dest!: SkipSpaces_pos)

lemma push_refused_stack:
  assumes "push_refused p"
  shows "kMaxStackSize - 1 \<le> length (yamlStack p)"
proof -
  from assms obtain i p1 where g: "GetIndent p = Some (i, p1)"
    by (auto simp: push_refused_def split: option.splits)
  from GetIndent_scans [OF g] have st: "yamlStack p1 = yamlStack p" by (simp add: scans_def)
  from assms g have "Push i p1 = None"
    by (cases "yamlStack p1") (auto simp: push_refused_def)
  with st show ?thesis by (auto simp: Push_def split: if_splits)
qed

lemma push_refused_HandleIndent: "push_refused p \<Longrightarrow> HandleIndent p = None"
  by (auto simp: push_refused_def HandleIndent_def split: option.splits list.splits)

lemma HandleIndent_True:
  assumes "HandleIndent p = Some (ok, p')" and "curr p \<le> endp p"
    and "endp p \<le> length (yaml p)" and "stack_ok (yamlStack p)"
  shows "ok \<and> yaml p' = yaml p \<and> endp p' = endp p \<and> curr p \<le> curr p' \<and> curr p' \<le> endp p"
proof -
  from HandleIndent_total [OF assms(2-4)] assms(1) push_refused_HandleIndent [of p]
  show ?thesis by auto
qed

lemma Iteration_parts:
  assumes it: "Iteration h p = Some (ok, p')" and "curr p < endp p"
    and "endp p = length (yaml p)" and "stack_ok (yamlStack p)"
  obtains p1 where "HandleIndent p = Some (True, p1)" "Dispatch h p1 = Some (ok, p')"
    "yaml p1 = yaml p" "endp p1 = endp p" "curr p \<le> curr p1" "curr p1 \<le> endp p"
    "stack_ok (yamlStack p1)"
proof -
  from it obtain ok1 p1 where hi: "HandleIndent p = Some (ok1, p1)"
    by (auto simp: Iteration_def split: option.splits)
  have "curr p \<le> endp p" "endp p \<le> length (yaml p)" using assms(2,3) by simp_all
  from HandleIndent_True [OF hi this assms(4)]
  have f: "ok1" "yaml p1 = yaml p" "endp p1 = endp p" "curr p \<le> curr p1" "curr p1 \<le> endp p"
    by simp_all
  from hi f(1) it have d: "Dispatch h p1 = Some (ok, p')" by (simp add: Iteration_def)
  from HandleIndent_ok [OF hi assms(4)] have "stack_ok (yamlStack p1)" .
  with hi f d show ?thesis by (auto intro: that)
qed

lemma Iteration_head:
  assumes it: "Iteration h p = Some (ok, p')" and "curr p < endp p"
    and "endp p = length (yaml p)" and "stack_ok (yamlStack p)"
  shows "yaml p' = yaml p \<and> (endp p' = endp p \<or> endp p' \<le> curr p')"
  using assms
proof (cases rule: Iteration_parts)
  case (1 p1)
  from Dispatch_scans [OF 1(2)] have "yaml p' = yaml p1" by (simp add: scans_def)
  moreover from Dispatch_endp [OF 1(2)] have "endp p' = endp p1 \<or> endp p' \<le> curr p'" by auto
  ultimately show ?thesis using 1(3,4) by simp
qed

lemma loop_reaches_head:
  assumes "loop_reaches h p q" and "stack_ok (yamlStack p)" and "endp p = length (yaml p)"
  shows "yaml q = yaml p \<and> stack_ok (yamlStack q) \<and> (endp q = length (yaml p) \<or> endp q < curr q)"
  using assms
proof (induction rule: loop_reaches.induct)
  case start
  then show ?case by simp
next
  case (step q q')
  from step.IH [OF step.prems] step.hyps(2)
  have q: "yaml q = yaml p" "stack_ok (yamlStack q)" "endp q = length (yaml q)" by auto
  from Iteration_head [OF step.hyps(3,2) q(3,2)] Iteration_ok [OF step.hyps(3) q(2)] q
  show ?case by auto
qed

lemma Parse_loop_None:
  "Parse_loop h p = None \<Longrightarrow>
   \<exists>q. loop_reaches h p q \<and> curr q < endp q \<and> Iteration h q = None"
proof (induction h p rule: Parse_loop.induct)
  case (1 h p)
  show ?case
  proof (cases "curr p < endp p")
    case False
    with "1.prems" show ?thesis by (subst (asm) Parse_loop.simps) simp
  next
    case True
    show ?thesis
    proof (cases "Iteration h p")
      case None
      with True show ?thesis by (auto intro: loop_reaches.start)
    next
      case (Some r)
      obtain ok1 p1 where r: "r = (ok1, p1)" by (cases r)
      with Some have it: "Iteration h p = Some (ok1, p1)" by simp
      show ?thesis
      proof (cases ok1)
        case False
        with "1.prems" True it show ?thesis by (subst (asm) Parse_loop.simps) simp
      next
        case ok1: True
        let ?n = "p1\<lparr>curr := curr p1 + 1, col := col p1 + 1\<rparr>"
        from "1.prems" True it ok1 have rec: "Parse_loop h ?n = None"
          by (subst (asm) Parse_loop.simps) simp
        from "1.IH" [OF True it refl ok1 rec] obtain q where
          q: "loop_reaches h ?n q" "curr q < endp q" "Iteration h q = None"
          by blast
        have first: "loop_reaches h p ?n"
          using loop_reaches.step [OF loop_reaches.start True] it ok1 by simp
        have "loop_reaches h p q" using q(1) first by (rule loop_reaches_trans)
        with q(2,3) show ?thesis by blast
      qed
    qed
  qed
qed

lemma PopAll_total:
  "stack_ok (yamlStack p) \<Longrightarrow> \<exists>p'. PopAll p = Some p'"
proof (induction "length (yamlStack p)" arbitrary: p rule: less_induct)
  case less
  show ?case
  proof (cases "1 < length (yamlStack p)")
    case False
    then show ?thesis by (subst PopAll.simps) simp
  next
    case True
    then obtain t rest where st: "yamlStack p = t # rest" "rest \<noteq> []"
      by (cases "yamlStack p") auto
    from Pop_inner [OF st] obtain p1 where
      pop: "Pop p = Some (True, p1)" and st1: "yamlStack p1 = rest"
      by blast
    from Pop_ok [OF less.prems(1) pop] have ok1: "stack_ok (yamlStack p1)" .
    have "length (yamlStack p1) < length (yamlStack p)" using st st1 by simp
    from less.hyps [OF this ok1] obtain p' where "PopAll p1 = Some p'" by blast
    with True pop show ?thesis by (subst PopAll.simps) simp
  qed
qed

lemma init_head:
  "endp (emit StartDocument (YamlParser_init text)) =
     length (yaml (emit StartDocument (YamlParser_init text)))"
  "yaml (emit StartDocument (YamlParser_init text)) = text"
  by (simp_all add: emit_def YamlParser_init_def)

lemma heads_total:
  assumes "loop_reaches h (emit StartDocument (YamlParser_init text)) q" and "curr q < endp q"
  shows "(\<exists>ok q'. Iteration h q = Some (ok, q')) \<or> push_refused q"
proof -
  from loop_reaches_head [OF assms(1) init_ok init_head(1)] assms(2)
  have "stack_ok (yamlStack q)" "endp q = length (yaml q)" by (auto simp: init_head)
  from Iteration_total [OF assms(2) this(2,1)] show ?thesis .
qed

lemma Parse_None:
  assumes "Parse h text = None"
  shows "\<exists>q. loop_reaches h (emit StartDocument (YamlParser_init text)) q \<and>
             curr q < endp q \<and> push_refused q"
proof -
  let ?p0 = "emit StartDocument (YamlParser_init text)"
  show ?thesis
  proof (cases "Parse_loop h ?p0")
    case None
    from Parse_loop_None [OF this] obtain q where
      q: "loop_reaches h ?p0 q" "curr q < endp q" "Iteration h q = None" by blast
    from heads_total [OF q(1,2)] q(3) have "push_refused q" by simp
    with q show ?thesis by blast
  next
    case (Some r)
    obtain ok1 p1 where r: "r = (ok1, p1)" by (cases r)
    with Some have loop: "Parse_loop h ?p0 = Some (ok1, p1)" by simp
    from Parse_loop_ok [OF loop init_ok] have "stack_ok (yamlStack p1)" .
    from PopAll_total [OF this] obtain p2 where "PopAll p1 = Some p2" by blast
    with loop assms show ?thesis by (cases ok1) (simp_all add: Parse_def)
  qed
qed

subsection \<open>What the scanner moves over\<close>

text \<open>
  \<open>seen P p a b\<close>: the characters of the text of \<open>p\<close> at the offsets from \<open>a\<close> up to,
  not including, \<open>b\<close> all satisfy \<open>P\<close>. It serves the proofs: each scanning function
  is shown to move the cursor over characters of one kind only.
\<close>

definition seen :: "(char \<Rightarrow> bool) \<Rightarrow> YamlParser \<Rightarrow> nat \<Rightarrow> nat \<Rightarrow> bool" where
  "seen P p a b = (\<forall>j. a \<le> j \<and> j < b \<longrightarrow> (\<exists>c. char_at p j = Some c \<and> P c))"

lemma char_at_yaml: "yaml p' = yaml p \<Longrightarrow> char_at p' j = char_at p j"
  by (simp add: char_at_def)

lemma char_at_update [simp]:
  "char_at (p\<lparr>curr := n\<rparr>) j = char_at p j" "char_at (p\<lparr>col := w\<rparr>) j = char_at p j"
  "char_at (p\<lparr>line := w\<rparr>) j = char_at p j" "char_at (p\<lparr>endp := n\<rparr>) j = char_at p j"
  "char_at (p\<lparr>completeKeyValuePair := b\<rparr>) j = char_at p j"
  "char_at (emit e p) j = char_at p j" "char_at (HandleMissingNull p) j = char_at p j"
  by (simp_all add: char_at_def)

lemma seen_yaml: "yaml p' = yaml p \<Longrightarrow> seen P p' a b = seen P p a b"
  by (simp add: seen_def char_at_def)

lemma seen_update [simp]:
  "seen P (p\<lparr>curr := n\<rparr>) a b = seen P p a b" "seen P (p\<lparr>col := w\<rparr>) a b = seen P p a b"
  "seen P (p\<lparr>completeKeyValuePair := f\<rparr>) a b = seen P p a b"
  "seen P (emit e p) a b = seen P p a b" "seen P (HandleMissingNull p) a b = seen P p a b"
  by (simp_all add: seen_def)

lemma seen_empty [simp]: "b \<le> a \<Longrightarrow> seen P p a b"
  by (auto simp: seen_def)

lemma seen_step:
  "peek p = Some c \<Longrightarrow> P c \<Longrightarrow> seen P p (curr p + 1) b \<Longrightarrow> seen P p (curr p) b"
  unfolding seen_def peek_def
proof (intro allI impI)
  fix j
  assume c: "char_at p (curr p) = Some c" and P: "P c"
    and rest: "\<forall>j. curr p + 1 \<le> j \<and> j < b \<longrightarrow> (\<exists>c. char_at p j = Some c \<and> P c)"
    and j: "curr p \<le> j \<and> j < b"
  show "\<exists>c. char_at p j = Some c \<and> P c"
  proof (cases "j = curr p")
    case True
    with c P show ?thesis by simp
  next
    case False
    with j have "curr p + 1 \<le> j \<and> j < b" by simp
    with rest show ?thesis by blast
  qed
qed

lemma seen_mono:
  "seen P p a b \<Longrightarrow> (\<And>c. P c \<Longrightarrow> Q c) \<Longrightarrow> a \<le> a' \<Longrightarrow> b' \<le> b \<Longrightarrow> seen Q p a' b'"
  unfolding seen_def by (meson le_trans less_le_trans)

lemma seen_join: "seen P p a b \<Longrightarrow> seen P p b c \<Longrightarrow> seen P p a c"
  unfolding seen_def by (meson not_le)

lemma seen_at: "seen P p a b \<Longrightarrow> a \<le> j \<Longrightarrow> j < b \<Longrightarrow> j < length (yaml p) \<Longrightarrow> P (yaml p ! j)"
  by (auto simp: seen_def char_at_def)

lemma GetIndent_loop_seen:
  "GetIndent_loop p i = Some (i', p') \<Longrightarrow>
   seen (\<lambda>c. CharIsIn c kIndentChars) p (curr p) (curr p')"
proof (induction p i rule: GetIndent_loop.induct)
  case (1 p indent)
  show ?case using "1.prems" "1.IH"
    by (subst (asm) GetIndent_loop.simps)
       (auto split: if_splits option.splits intro: seen_step)
qed

lemma GetIndent_seen:
  "GetIndent p = Some (i', p') \<Longrightarrow> seen (\<lambda>c. CharIsIn c kIndentChars) p (curr p) (curr p')"
  by (auto simp: GetIndent_def split: option.splits dest: GetIndent_loop_seen)

lemma HandleIndent_seen:
  "HandleIndent p = Some (ok, p') \<Longrightarrow> seen (\<lambda>c. CharIsIn c kIndentChars) p (curr p) (curr p')"
  by (auto simp: HandleIndent_def split: if_splits option.splits list.splits
      dest!: GetIndent_seen Push_pos PopWhile_pos)

lemma SkipSpaces_loop_seen:
  "SkipSpaces_loop p = Some p' \<Longrightarrow> seen (\<lambda>c. c = CHR '' '') p (curr p) (curr p')"
proof (induction p rule: SkipSpaces_loop.induct)
  case (1 p)
  show ?case using "1.prems" "1.IH"
    by (subst (asm) SkipSpaces_loop.simps)
       (auto split: if_splits option.splits intro: seen_step)
qed

lemma SkipSpaces_seen:
  assumes "SkipSpaces p = Some p'"
  shows "seen (\<lambda>c. c = CHR '' '') p (curr p + 1) (curr p' + 1)"
proof -
  from assms obtain p1 where l: "SkipSpaces_loop (p\<lparr>curr := curr p + 1\<rparr>) = Some p1"
    and p': "p' = p1\<lparr>curr := curr p1 - 1, col := col p1 - 1\<rparr>"
    by (auto simp: SkipSpaces_def split: option.splits)
  from SkipSpaces_loop_seen [OF l] have "seen (\<lambda>c. c = CHR '' '') p (curr p + 1) (curr p1)"
    by simp
  moreover from SkipSpaces_loop_pos [OF l] have "curr p + 1 \<le> curr p1" by simp
  ultimately show ?thesis using p' by simp
qed

lemma SkipStartDocument_loop_seen:
  "SkipStartDocument_loop p n = Some (n', p') \<Longrightarrow> n \<le> 3 \<Longrightarrow>
   seen (\<lambda>c. c = CHR ''-'') p (curr p) (curr p') \<and> curr p' + n \<le> curr p + 3 \<and>
   (n < 3 \<and> curr p < endp p \<and> peek p = Some (CHR ''-'') \<longrightarrow> curr p < curr p')"
proof (induction p n rule: SkipStartDocument_loop.induct)
  case (1 p dashCount)
  show ?case using "1.prems" "1.IH"
    by (subst (asm) SkipStartDocument_loop.simps)
       (auto split: if_splits option.splits intro: seen_step
             dest!: SkipStartDocument_loop_pos)
qed

lemma SkipLine_seen:
  "SkipLine p = Some p' \<Longrightarrow>
   seen (\<lambda>c. \<not> CharIsIn c kEndLine) p (curr p) (min (curr p' + 1) (endp p))"
proof (induction p rule: SkipLine.induct)
  case (1 p)
  show ?case
  proof (cases "curr p < endp p")
    case False
    with "1.prems" have "p' = p" by (subst (asm) SkipLine.simps) simp
    with False show ?thesis by simp
  next
    case True
    with "1.prems" obtain c where c: "peek p = Some c"
      by (subst (asm) SkipLine.simps) (auto split: option.splits)
    show ?thesis
    proof (cases "CharIsIn c kEndLine")
      case eol: True
      with "1.prems" True c have "curr p' + 1 = curr p"
        by (subst (asm) SkipLine.simps) (auto split: if_splits)
      then show ?thesis by simp
    next
      case False
      with "1.prems" True c have rec: "SkipLine (p\<lparr>curr := curr p + 1\<rparr>) = Some p'"
        by (subst (asm) SkipLine.simps) simp
      from "1.IH" [OF True c False rec]
      have "seen (\<lambda>c. \<not> CharIsIn c kEndLine) p (curr p + 1) (min (curr p' + 1) (endp p))"
        by simp
      with c False show ?thesis by (rule seen_step)
    qed
  qed
qed

lemma SkipToImportant_seen:
  "SkipToImportant p = Some p' \<Longrightarrow>
   seen (\<lambda>c. \<not> CharIsIn c kImportantChar) p (curr p) (curr p')"
proof (induction p rule: SkipToImportant.induct)
  case (1 p)
  show ?case using "1.prems" "1.IH"
    by (subst (asm) SkipToImportant.simps)
       (auto split: if_splits option.splits intro: seen_step)
qed

lemma OutputScalar_curr: "OutputScalar h str p = Some (ok, p') \<Longrightarrow> curr p' + 1 = curr p"
  by (auto simp: OutputScalar_def onKey_def onScalar_def Let_def split: option.splits if_splits)

lemma IsNormalChar_not_tab: "IsNormalChar p = Some True \<Longrightarrow> peek p \<noteq> Some (CHR 0x09)"
  by (auto simp: IsNormalChar_def split: option.splits if_splits)

lemma ParsePlain_loop_seen:
  "ParsePlain_loop h s p = Some (ok, p') \<Longrightarrow>
   seen (\<lambda>c. c \<noteq> CHR 0x09) p (curr p) (min (curr p' + 1) (endp p))"
proof (induction h s p rule: ParsePlain_loop.induct)
  case (1 h startStr p)
  show ?case
  proof (cases "curr p < endp p")
    case False
    with "1.prems" have "curr p' = curr p"
      by (subst (asm) ParsePlain_loop.simps)
         (auto simp: onScalar_def Let_def split: option.splits)
    with False show ?thesis by simp
  next
    case True
    with "1.prems" obtain c where c: "peek p = Some c"
      by (subst (asm) ParsePlain_loop.simps) (auto split: option.splits)
    show ?thesis
    proof (cases "CharIsIn c kEndScalar")
      case False
      with "1.prems" True c have rec:
        "ParsePlain_loop h startStr (p\<lparr>curr := curr p + 1\<rparr>) = Some (ok, p')"
        by (subst (asm) ParsePlain_loop.simps) simp
      from "1.IH"(2) [OF True c False rec]
      have "seen (\<lambda>c. c \<noteq> CHR 0x09) p (curr p + 1) (min (curr p' + 1) (endp p))" by simp
      moreover from False have "c \<noteq> CHR 0x09" by (auto simp: CharIsIn_def kEndScalar_def)
      ultimately show ?thesis using c by (intro seen_step [where c = c]) simp_all
    next
      case es: True
      with "1.prems" True c obtain normal where n: "IsNormalChar p = Some normal"
        by (subst (asm) ParsePlain_loop.simps) (auto split: option.splits)
      show ?thesis
      proof (cases normal)
        case normal: True
        with "1.prems" True c es n have rec:
          "ParsePlain_loop h startStr (p\<lparr>curr := curr p + 1\<rparr>) = Some (ok, p')"
          by (subst (asm) ParsePlain_loop.simps) simp
        from "1.IH"(1) [OF True c es, of True] n normal rec
        have "seen (\<lambda>c. c \<noteq> CHR 0x09) p (curr p + 1) (min (curr p' + 1) (endp p))" by simp
        moreover from IsNormalChar_not_tab n normal c have "c \<noteq> CHR 0x09" by auto
        ultimately show ?thesis using c by (intro seen_step [where c = c]) simp_all
      next
        case False
        with "1.prems" True c es n obtain str where
          "OutputScalar h str (p\<lparr>col := col p + of_nat (curr p - startStr)\<rparr>) = Some (ok, p')"
          by (subst (asm) ParsePlain_loop.simps) (auto split: option.splits)
        from OutputScalar_curr [OF this] show ?thesis by simp
      qed
    qed
  qed
qed

lemma ParseQuoted_loop_seen:
  "ParseQuoted_loop h quote s p = Some (True, p') \<Longrightarrow> quote \<noteq> CHR 0x09 \<Longrightarrow>
   \<exists>e. curr p \<le> e \<and> seen (\<lambda>c. c \<noteq> quote) p (curr p) e \<and>
       seen (\<lambda>c. c \<noteq> CHR 0x09) p e (curr p' + 1)"
proof (induction h quote s p rule: ParseQuoted_loop.induct)
  case (1 h quote startStr p)
  show ?case
  proof (cases "curr p < endp p")
    case False
    with "1.prems" show ?thesis
      by (subst (asm) ParseQuoted_loop.simps) (auto simp: Error_def split: option.splits)
  next
    case True
    with "1.prems" obtain c where c: "peek p = Some c"
      by (subst (asm) ParseQuoted_loop.simps) (auto split: option.splits)
    show ?thesis
    proof (cases "c = quote")
      case False
      with "1.prems" True c have rec:
        "ParseQuoted_loop h quote startStr (p\<lparr>curr := curr p + 1\<rparr>) = Some (True, p')"
        by (subst (asm) ParseQuoted_loop.simps) simp
      from "1.IH" [OF True c False rec "1.prems"(2)] obtain e where
        e: "curr p + 1 \<le> e" "seen (\<lambda>c. c \<noteq> quote) p (curr p + 1) e"
           "seen (\<lambda>c. c \<noteq> CHR 0x09) p e (curr p' + 1)"
        by auto
      from c False e(2) have "seen (\<lambda>c. c \<noteq> quote) p (curr p) e"
        by (intro seen_step [where c = c]) simp_all
      with e show ?thesis by (intro exI [of _ e]) simp
    next
      case q: True
      with "1.prems" True c obtain str p2 where
        sk: "SkipToImportant (p\<lparr>curr := curr p + 1\<rparr>) = Some p2" and
        out: "OutputScalar h str
                (p2\<lparr>col := col p2 + of_nat (curr p2 - startStr + kQuoteChars)\<rparr>) = Some (True, p')"
        by (subst (asm) ParseQuoted_loop.simps) (auto split: option.splits)
      from OutputScalar_curr [OF out] have cp: "curr p' + 1 = curr p2" by simp
      from SkipToImportant_seen [OF sk]
      have "seen (\<lambda>c. \<not> CharIsIn c kImportantChar) p (curr p + 1) (curr p2)" by simp
      then have "seen (\<lambda>c. c \<noteq> CHR 0x09) p (curr p + 1) (curr p2)"
        by (rule seen_mono) (auto simp: CharIsIn_def kImportantChar_def)
      with c q "1.prems"(2) have "seen (\<lambda>c. c \<noteq> CHR 0x09) p (curr p) (curr p2)"
        by (intro seen_step [where c = c]) simp_all
      with cp show ?thesis by (intro exI [of _ "curr p"]) simp
    qed
  qed
qed

text \<open>A return of false follows a call of \<open>onError\<close> or an answer false of the handler.\<close>

definition refusal :: "handler \<Rightarrow> event list \<Rightarrow> bool" where
  "refusal h evs =
     (evs \<noteq> [] \<and>
      ((\<exists>msg l c. last evs = ErrorEvent msg l c) \<or>
       (\<exists>str. last evs = Key str \<or> last evs = Scalar str) \<and> \<not> h evs))"

lemma Error_refusal: "Error msg p = (ok, p') \<Longrightarrow> \<not> ok \<and> refusal h (events p')"
  by (auto simp: Error_def refusal_def emit_def)

lemma onKey_refusal: "onKey h str p = (False, p') \<Longrightarrow> refusal h (events p')"
  by (auto simp: onKey_def refusal_def emit_def Let_def)

lemma onScalar_refusal: "onScalar h str p = (False, p') \<Longrightarrow> refusal h (events p')"
  by (auto simp: onScalar_def refusal_def emit_def Let_def)

lemma OutputScalar_refusal: "OutputScalar h str p = Some (False, p') \<Longrightarrow> refusal h (events p')"
  by (auto simp: OutputScalar_def Let_def split: option.splits if_splits
      dest: onKey_refusal onScalar_refusal)

lemma ParsePlain_loop_refusal: "ParsePlain_loop h s p = Some (False, p') \<Longrightarrow> refusal h (events p')"
proof (induction h s p rule: ParsePlain_loop.induct)
  case (1 h startStr p)
  have IH1: "curr p < endp p \<Longrightarrow> peek p = Some c \<Longrightarrow> CharIsIn c kEndScalar \<Longrightarrow>
      IsNormalChar p = Some True \<Longrightarrow>
      ParsePlain_loop h startStr (p\<lparr>curr := curr p + 1\<rparr>) = Some (False, p') \<Longrightarrow>
      refusal h (events p')" for c
    using "1.IH"(1) [of c True] by simp
  show ?case using "1.prems" "1.IH"(2) IH1
    by (subst (asm) ParsePlain_loop.simps)
       (auto split: if_splits option.splits dest!: OutputScalar_refusal onScalar_refusal)
qed

lemma ParseQuoted_loop_refusal:
  "ParseQuoted_loop h q s p = Some (False, p') \<Longrightarrow> refusal h (events p')"
proof (induction h q s p rule: ParseQuoted_loop.induct)
  case (1 h quote startStr p)
  show ?case using "1.prems" "1.IH"
    by (subst (asm) ParseQuoted_loop.simps)
       (auto split: if_splits option.splits dest!: OutputScalar_refusal Error_refusal [where h = h])
qed

lemma ParseNode_refusal: "ParseNode h p = Some (False, p') \<Longrightarrow> refusal h (events p')"
  by (auto simp: ParseNode_def ParsePlain_def ParseQuoted_def split: option.splits if_splits
      dest: ParseQuoted_loop_refusal ParsePlain_loop_refusal)

lemma Dispatch_refusal:
  assumes "Dispatch h p = Some (False, p')"
  shows "refusal h (events p')"
  using assms
proof (cases rule: Dispatch_cases)
  case (node c)
  then show ?thesis by (auto dest: ParseNode_refusal)
next
  case (error msg)
  then show ?thesis by (auto dest: Error_refusal [where h = h, OF sym])
qed auto

lemma seen_list_all:
  "seen P p a b \<Longrightarrow> b \<le> length (yaml p) \<Longrightarrow> list_all (\<lambda>j. P (yaml p ! j)) [a ..< b]"
  by (auto simp: list_all_iff seen_def char_at_def)

lemma SkipSpaces_clear:
  assumes "SkipSpaces q = Some p'" and "yaml q = yaml p" and "curr q = curr p"
    and "peek p = Some c" and "c \<noteq> CHR 0x09"
    and "curr p \<le> t" and "t \<le> curr p'" and "t < length (yaml p)"
  shows "yaml p ! t \<noteq> CHR 0x09"
proof (cases "t = curr p")
  case True
  from assms(4) have "char_at p (curr p) = Some c" by (simp add: peek_def)
  with assms(8) have "yaml p ! t = c" unfolding True by (simp add: char_at_def)
  with assms(5) show ?thesis by simp
next
  case False
  from SkipSpaces_seen [OF assms(1)]
  have s: "seen (\<lambda>c. c = CHR '' '') p (curr p + 1) (curr p' + 1)"
    by (simp add: seen_yaml [OF assms(2)] assms(3))
  have "curr p + 1 \<le> t" "t < curr p' + 1" using False assms(6,7) by simp_all
  from seen_at [OF s this assms(8)] show ?thesis by simp
qed

lemma Dispatch_passes:
  assumes d: "Dispatch h p = Some (True, p')" and c: "peek p = Some c"
    and whole: "endp p = length (yaml p)"
    and t: "curr p \<le> t" "t \<le> curr p'" "t < length (yaml p)" "yaml p ! t = CHR 0x09"
  shows "passed_over (yaml p) (curr p) t"
proof -
  have cur: "curr p < length (yaml p)" using t by simp
  with c have cy: "yaml p ! curr p = c" by (simp add: peek_def char_at_def)
  note clear = SkipSpaces_clear [where p = p and t = t, OF _ _ _ c _ t(1) _ t(3)]
  from d show ?thesis
  proof (cases rule: Dispatch_cases)
    case (dash_space p1)
    from dash_space(1) c have "c = CHR ''-''" by simp
    then have "c \<noteq> CHR 0x09" by simp
    from clear [OF dash_space(3) _ _ this] dash_space(4) t show ?thesis by simp
  next
    case (separator c1 p1)
    with c have "c \<noteq> CHR 0x09" by simp
    from clear [OF separator(3) _ _ this] separator(4) t show ?thesis by simp
  next
    case (open_seq c1 p1)
    with c have "c \<noteq> CHR 0x09" by simp
    from clear [OF open_seq(3) _ _ this] open_seq(4) t show ?thesis by simp
  next
    case (close_seq c1 p1)
    with c have "c \<noteq> CHR 0x09" by simp
    from clear [OF close_seq(3) _ _ this] close_seq(4) t show ?thesis by simp
  next
    case (open_map c1 p1)
    with c have "c \<noteq> CHR 0x09" by simp
    from clear [OF open_map(3) _ _ this] open_map(4) t show ?thesis by simp
  next
    case (close_map c1 p1)
    with c have "c \<noteq> CHR 0x09" by simp
    from clear [OF close_map(3) _ _ this] close_map(4) t show ?thesis by simp
  next
    case (newline c1)
    with c t cy show ?thesis by auto
  next
    case (blank c1)
    with c t cy show ?thesis by auto
  next
    case nul
    with c t cy show ?thesis by auto
  next
    case (error msg)
    then show ?thesis by (simp add: Error_def)
  next
    case (marker b p1)
    from marker(1) c have cd: "c = CHR ''-''" by simp
    from marker(2) whole have nx: "curr p + 1 < length (yaml p)" "yaml p ! (curr p + 1) = CHR ''-''"
      by (auto simp: PeekNext_def char_at_def split: if_splits)
    from marker(3) obtain n p2 where
      l: "SkipStartDocument_loop (p\<lparr>curr := curr p + 1\<rparr>) 1 = Some (n, p2)" and
      p1: "p1 = p2\<lparr>col := col p2 + of_nat n\<rparr>"
      by (auto simp: SkipStartDocument_def split: option.splits)
    have pk: "peek (p\<lparr>curr := curr p + 1\<rparr>) = Some (CHR ''-'')"
      using nx by (simp add: peek_def char_at_def)
    from SkipStartDocument_loop_seen [OF l] pk nx(1) whole
    have s: "seen (\<lambda>c. c = CHR ''-'') p (curr p + 1) (curr p2)" "curr p2 \<le> curr p + 3"
      "curr p + 1 < curr p2"
      by simp_all
    from marker(4) p1 have cp: "curr p' = curr p2" by simp
    have "curr p < t" using t(1,4) cy cd by (cases "t = curr p") auto
    have "\<not> t < curr p2"
    proof
      assume "t < curr p2"
      from seen_at [OF s(1) _ this t(3)] \<open>curr p < t\<close> t(4) show False by simp
    qed
    with t(2) cp have tt: "t = curr p2" by simp
    then have "t = curr p + 2 \<or> t = curr p + 3" using s(2,3) by arith
    moreover have "yaml p ! (curr p + 2) = CHR ''-''" if "t = curr p + 3"
      using seen_at [OF s(1), of "curr p + 2"] that tt t(3) by simp
    ultimately show ?thesis using cd cy nx(2) \<open>curr p < t\<close>
      by (auto simp: passed_over_def single_quote_def double_quote_def)
  next
    case (comment c1 p1)
    with c have cc: "c = CHR ''#'' \<or> c = CHR ''%''" by simp
    then have "curr p < t" using t(1,4) cy by (cases "t = curr p") auto
    from comment(4) have cp: "p' = p1" by simp
    from SkipLine_seen [OF comment(3)] cp whole
    have "seen (\<lambda>c. \<not> CharIsIn c kEndLine) p (curr p) (min (curr p' + 1) (length (yaml p)))"
      by simp
    then have "seen (\<lambda>c. \<not> CharIsIn c kEndLine) p (curr p + 1) t"
      by (rule seen_mono) (use t in auto)
    from seen_list_all [OF this] t(3)
    have "list_all (\<lambda>j. \<not> CharIsIn (yaml p ! j) kEndLine) [curr p + 1 ..< t]" by simp
    with cc cy \<open>curr p < t\<close> show ?thesis by (auto simp: passed_over_def)
  next
    case (node c1)
    with c have c1: "c1 = c" by simp
    from node(2) c1 have nt: "c \<noteq> CHR 0x09" by (auto simp: CharIsIn_def kEndScalar_def)
    then have lt: "curr p < t" using t(1,4) cy by (cases "t = curr p") auto
    show ?thesis
    proof (cases "c = single_quote \<or> c = double_quote")
      case True
      with node(4) c have
        "ParseQuoted_loop h c (curr p + 1) (p\<lparr>curr := curr p + 1\<rparr>) = Some (True, p')"
        by (auto simp: ParseNode_def ParseQuoted_def single_quote_def double_quote_def)
      from ParseQuoted_loop_seen [OF this nt] obtain e where
        e: "curr p + 1 \<le> e" "seen (\<lambda>x. x \<noteq> c) p (curr p + 1) e"
           "seen (\<lambda>x. x \<noteq> CHR 0x09) p e (curr p' + 1)"
        by auto
      have "t < e"
      proof (rule ccontr)
        assume "\<not> t < e"
        with seen_at [OF e(3), of t] t show False by simp
      qed
      from e(2) have "seen (\<lambda>x. x \<noteq> c) p (curr p + 1) t"
        by (rule seen_mono) (use \<open>t < e\<close> in simp_all)
      from seen_list_all [OF this] t(3)
      have "list_all (\<lambda>j. yaml p ! j \<noteq> c) [curr p + 1 ..< t]" by simp
      with True cy lt show ?thesis
        by (auto simp: passed_over_def single_quote_def double_quote_def)
    next
      case False
      with node(4) c have "ParsePlain_loop h (curr p) p = Some (True, p')"
        by (auto simp: ParseNode_def ParsePlain_def)
      from ParsePlain_loop_seen [OF this] whole
      have "seen (\<lambda>c. c \<noteq> CHR 0x09) p (curr p) (min (curr p' + 1) (length (yaml p)))" by simp
      from seen_at [OF this, of t] t show ?thesis by simp
    qed
  qed
qed

lemma HandleIndent_clear:
  assumes "HandleIndent p = Some (ok, p')" and "curr p \<le> t" and "t < curr p'"
    and "t < length (yaml p)"
  shows "yaml p ! t \<noteq> CHR 0x09"
proof -
  from seen_at [OF HandleIndent_seen [OF assms(1)] assms(2-4)]
  show ?thesis by (auto simp: CharIsIn_def kIndentChars_def)
qed

lemma loop_reaches_covered:
  assumes "loop_reaches h (emit StartDocument (YamlParser_init text)) q"
  shows "(\<forall>t. t < curr q \<and> t < length text \<and> text ! t = CHR 0x09 \<longrightarrow>
             (\<exists>d. switch_on h text d \<and> passed_over text d t)) \<and>
         (endp q = length text \<or>
          endp q < curr q \<and> endp q < length text \<and> switch_on h text (endp q) \<and>
          text ! endp q = CHR 0x00)"
  using assms
proof (induction rule: loop_reaches.induct)
  case start
  show ?case by (simp add: emit_def YamlParser_init_def)
next
  case (step q q')
  let ?next = "q'\<lparr>curr := curr q' + 1, col := col q' + 1\<rparr>"
  from loop_reaches_head [OF step.hyps(1) init_ok init_head(1)] step.hyps(2)
  have hd: "yaml q = text" "stack_ok (yamlStack q)" "endp q = length (yaml q)"
    by (auto simp: YamlParser_init_def)
  from step.hyps(3,2) hd(3,2) obtain q1 where
    q1: "HandleIndent q = Some (True, q1)" "Dispatch h q1 = Some (True, q')"
      "yaml q1 = yaml q" "endp q1 = endp q" "curr q \<le> curr q1" "curr q1 \<le> endp q"
    by (rule Iteration_parts)
  from q1(3,4,6) hd(3) have "curr q1 \<le> length (yaml q1)" by simp
  from peek_Some [OF this] obtain c where c: "peek q1 = Some c" by blast
  have sw: "switch_on h text (curr q1)"
    unfolding switch_on_def using step.hyps(1,2) q1(1) by blast
  have whole1: "endp q1 = length (yaml q1)" using q1(3,4) hd(3) by simp
  have cover: "\<exists>d. switch_on h text d \<and> passed_over text d t"
    if t: "t < curr q' + 1" "t < length text" "text ! t = CHR 0x09" for t
  proof -
    consider "t < curr q" | "curr q \<le> t" "t < curr q1" | "curr q1 \<le> t" by linarith
    then show ?thesis
    proof cases
      case 1
      with step.IH t show ?thesis by blast
    next
      case 2
      from HandleIndent_clear [OF q1(1) 2] t(2,3) hd(1) show ?thesis by simp
    next
      case 3
      have "t \<le> curr q'" using t(1) by simp
      from Dispatch_passes [OF q1(2) c whole1 3 this] t(2,3) q1(3) hd(1)
      have "passed_over text (curr q1) t" by simp
      with sw show ?thesis by blast
    qed
  qed
  from Dispatch_endp [OF q1(2)]
  have "endp ?next = length text \<or>
        endp ?next < curr ?next \<and> endp ?next < length text \<and> switch_on h text (endp ?next) \<and>
        text ! endp ?next = CHR 0x00"
  proof
    assume "endp q' = endp q1"
    with q1(4) hd(1,3) show ?thesis by simp
  next
    assume nul: "peek q1 = Some (CHR 0x00) \<and> endp q' = curr q1 \<and> curr q' = curr q1"
    show ?thesis
    proof (cases "curr q1 < length text")
      case True
      with nul q1(3) hd(1) have "text ! curr q1 = CHR 0x00" by (auto simp: peek_def char_at_def)
      with nul sw True show ?thesis by simp
    next
      case False
      with q1(6) hd(1,3) have "curr q1 = length text" by simp
      with nul show ?thesis by simp
    qed
  qed
  with cover show ?case by simp
qed

section \<open>The encoder: what the table holds and what the scan returns\<close>

text \<open>
  Two functions used in the proofs only. \<open>entry_after S i c l\<close> follows the single table
  entry of byte value \<open>c\<close> through the first loop; \<open>lowest t n a\<close> is the value of
  \<open>lowestPosition\<close> after the second loop has looked at the byte values below \<open>n\<close>.
\<close>

fun entry_after :: "string \<Rightarrow> nat \<Rightarrow> nat \<Rightarrow> Letter \<Rightarrow> Letter" where
  "entry_after [] i c l = l"
| "entry_after (ch # rest) i c l =
     entry_after rest (i + 1) c
       (if of_char ch = c \<and> firstPos l = 0 then \<lparr>firstPos = i, found = True\<rparr> else l)"

primrec lowest :: "Letter list \<Rightarrow> nat \<Rightarrow> nat \<Rightarrow> nat" where
  "lowest t 0 a = a"
| "lowest t (Suc n) a =
     (if found (t ! n) \<and> is_special_code n \<and> firstPos (t ! n) < lowest t n a
      then firstPos (t ! n) else lowest t n a)"

lemma of_char_lt_256: "(of_char c :: nat) < 256"
  by (metis of_char_mod_256 mod_less_divisor zero_less_numeral)

lemma length_build_ascii: "length (build_ascii S i t) = length t"
  by (induction S arbitrary: i t) (auto simp: Let_def)

lemma build_ascii_nth:
  "length t = 256 \<Longrightarrow> c < 256 \<Longrightarrow> build_ascii S i t ! c = entry_after S i c (t ! c)"
  by (induction S arbitrary: i t) (auto simp: Let_def nth_list_update of_char_lt_256)

lemma entry_after_found:
  "(firstPos l \<noteq> 0 \<longrightarrow> found l) \<Longrightarrow>
   found (entry_after S i c l) = (found l \<or> c \<in> of_char ` set S)"
  by (induction S arbitrary: i l) auto

lemma entry_after_bound:
  "(found l \<longrightarrow> firstPos l < i) \<Longrightarrow> found (entry_after S i c l) \<Longrightarrow>
   firstPos (entry_after S i c l) < i + length S"
proof (induction S arbitrary: i l)
  case Nil
  then show ?case by simp
next
  case (Cons ch rest)
  let ?l = "if of_char ch = c \<and> firstPos l = 0 then \<lparr>firstPos = i, found = True\<rparr> else l"
  have "found ?l \<longrightarrow> firstPos ?l < i + 1" using Cons.prems(1) by auto
  moreover have "found (entry_after rest (i + 1) c ?l)" using Cons.prems(2) by simp
  ultimately have "firstPos (entry_after rest (i + 1) c ?l) < (i + 1) + length rest"
    by (rule Cons.IH)
  then show ?case by simp
qed

lemma scan_fold:
  "fold (scan_letter t) [0 ..< n] (a, b, d) =
     (lowest t n a,
      if of_char single_quote < n \<and> found (t ! of_char single_quote)
        then firstPos (t ! of_char single_quote) else b,
      if of_char double_quote < n \<and> found (t ! of_char double_quote)
        then firstPos (t ! of_char double_quote) else d)"
proof (induction n)
  case 0
  then show ?case by simp
next
  case (Suc n)
  then show ?case
    by (auto simp: scan_letter_def Let_def less_Suc_eq)
qed

lemma lowest_le: "lowest t n a \<le> a"
  by (induction n) auto

lemma lowest_lower: "c < n \<Longrightarrow> found (t ! c) \<Longrightarrow> is_special_code c \<Longrightarrow> lowest t n a \<le> firstPos (t ! c)"
  by (induction n) (auto simp: less_Suc_eq)

lemma lowest_cases:
  "lowest t n a = a \<or> (\<exists>c<n. found (t ! c) \<and> is_special_code c \<and> lowest t n a = firstPos (t ! c))"
  by (induction n) (auto simp: less_Suc_eq)


lemma table_found:
  assumes "c < 256"
  shows "found (build_ascii S 0 ascii_init ! c) = (c \<in> of_char ` set S)"
proof -
  have "build_ascii S 0 ascii_init ! c = entry_after S 0 c (ascii_init ! c)"
    using assms by (intro build_ascii_nth) (simp_all add: ascii_init_def kAsciiTableSize_def)
  moreover have "ascii_init ! c = \<lparr>firstPos = 0, found = False\<rparr>"
    using assms by (simp add: ascii_init_def kAsciiTableSize_def)
  ultimately show ?thesis by (simp add: entry_after_found)
qed

lemma table_bound:
  assumes "c < 256" and "found (build_ascii S 0 ascii_init ! c)"
  shows "firstPos (build_ascii S 0 ascii_init ! c) < length S"
proof -
  have eq: "build_ascii S 0 ascii_init ! c = entry_after S 0 c \<lparr>firstPos = 0, found = False\<rparr>"
    using assms(1) build_ascii_nth [of ascii_init c S 0]
    by (simp add: ascii_init_def kAsciiTableSize_def)
  have "firstPos (entry_after S 0 c \<lparr>firstPos = 0, found = False\<rparr>) < 0 + length S"
    by (rule entry_after_bound) (use assms(2) eq in simp_all)
  then show ?thesis by (simp add: eq)
qed

lemma special_code_iff:
  "is_special_code (of_char ch) =
     ((of_char ch :: nat) < 0x20 \<or> (of_char ch :: nat) > 0x7A \<or> ch \<in> set kSpecialChar)"
  by (auto simp: is_special_code_def kLowerBound_def kUpperBound_def list_ex_iff)

lemma scan_table:
  assumes "length S < 2 ^ 64"
  defines "t \<equiv> build_ascii S 0 ascii_init"
  shows "scan_ascii t =
     (lowest t 256 kInvalidPos,
      if single_quote \<in> set S then firstPos (t ! of_char single_quote) else kInvalidPos,
      if double_quote \<in> set S then firstPos (t ! of_char double_quote) else kInvalidPos)"
  unfolding scan_ascii_def kAsciiTableSize_def scan_fold
  by (auto simp: t_def table_found of_char_lt_256)

lemma lowest_table_invalid:
  assumes "length S < 2 ^ 64"
  shows "(lowest (build_ascii S 0 ascii_init) 256 kInvalidPos = kInvalidPos) =
         (\<forall>ch \<in> set S. \<not> is_special_code (of_char ch))"
proof
  let ?t = "build_ascii S 0 ascii_init"
  assume eq: "lowest ?t 256 kInvalidPos = kInvalidPos"
  show "\<forall>ch \<in> set S. \<not> is_special_code (of_char ch)"
  proof
    fix ch assume ch: "ch \<in> set S"
    show "\<not> is_special_code (of_char ch)"
    proof
      assume sp: "is_special_code (of_char ch)"
      have f: "found (?t ! of_char ch)" using ch by (simp add: table_found of_char_lt_256)
      have "lowest ?t 256 kInvalidPos \<le> firstPos (?t ! of_char ch)"
        by (rule lowest_lower) (use f sp in \<open>simp_all add: of_char_lt_256\<close>)
      moreover have "firstPos (?t ! of_char ch) < length S"
        by (rule table_bound) (use f in \<open>simp_all add: of_char_lt_256\<close>)
      ultimately show False using eq assms by (simp add: kInvalidPos_def)
    qed
  qed
next
  let ?t = "build_ascii S 0 ascii_init"
  assume none: "\<forall>ch \<in> set S. \<not> is_special_code (of_char ch)"
  from lowest_cases [of ?t 256 kInvalidPos]
  show "lowest ?t 256 kInvalidPos = kInvalidPos"
  proof
    assume "\<exists>c<256. found (?t ! c) \<and> is_special_code c \<and>
              lowest ?t 256 kInvalidPos = firstPos (?t ! c)"
    then obtain c where c: "c < 256" "found (?t ! c)" "is_special_code c" by blast
    then have "c \<in> of_char ` set S" by (simp add: table_found)
    with none c(3) show ?thesis by auto
  qed simp
qed

lemma quote_pos_bound:
  assumes "length S < 2 ^ 64" and "q \<in> set S"
  shows "firstPos (build_ascii S 0 ascii_init ! of_char q) < kInvalidPos"
proof -
  have "found (build_ascii S 0 ascii_init ! of_char q)"
    using assms(2) by (simp add: table_found of_char_lt_256)
  then have "firstPos (build_ascii S 0 ascii_init ! of_char q) < length S"
    by (intro table_bound) (simp_all add: of_char_lt_256)
  then show ?thesis using assms(1) by (simp add: kInvalidPos_def)
qed


section \<open>Claims about the encoder\<close>

text \<open>
  Claim C2. Let \<open>S\<close> be a scalar that is not already wrapped in matching quotes and
  does not hold both a single and a double quote (and whose size fits \<open>size_t\<close>). If \<open>S\<close>
  is empty, or every byte of it lies in \<open>[0x20, 0x7A]\<close> and outside the special
  punctuation, \<open>CreateSafeScalar\<close> returns \<open>S\<close> unchanged. Otherwise it returns \<open>S\<close>
  between two copies of one quote character, the double quote when \<open>S\<close> holds a single
  quote and the single quote when it does not, and \<open>S\<close> itself is not altered.
\<close>

theorem CreateSafeScalar_quoting:
  assumes len: "length S < 2 ^ 64"
    and nq: "\<not> already_quoted S"
    and nb: "\<not> (CHR 0x27 \<in> set S \<and> CHR 0x22 \<in> set S)"
  shows "CreateSafeScalar S =
     Some (if S = [] \<or>
              list_all (\<lambda>ch. (0x20::nat) \<le> of_char ch \<and> (of_char ch :: nat) \<le> 0x7A \<and>
                 ch \<notin> {CHR ''!'', CHR 0x22, CHR ''#'', CHR ''$'', CHR ''%'', CHR ''&'', CHR 0x27,
                   CHR ''*'', CHR '','', CHR ''-'', CHR ''/'', CHR '':'', CHR ''<'', CHR ''='',
                   CHR ''>'', CHR ''?'', CHR ''@'', CHR ''['', CHR 0x5C, CHR '']'', CHR 0x60}) S
           then S
           else if CHR 0x27 \<in> set S then [CHR 0x22] @ S @ [CHR 0x22]
           else [CHR 0x27] @ S @ [CHR 0x27])"
proof (cases "S = []")
  case True
  then show ?thesis by (simp add: CreateSafeScalar_def GetSpecialChars_def Special_of_def)
next
  case False
  let ?t = "build_ascii S 0 ascii_init"
  let ?plain = "\<lambda>ch. (0x20::nat) \<le> of_char ch \<and> (of_char ch :: nat) \<le> 0x7A \<and>
                 ch \<notin> {CHR ''!'', CHR 0x22, CHR ''#'', CHR ''$'', CHR ''%'', CHR ''&'', CHR 0x27,
                   CHR ''*'', CHR '','', CHR ''-'', CHR ''/'', CHR '':'', CHR ''<'', CHR ''='',
                   CHR ''>'', CHR ''?'', CHR ''@'', CHR ''['', CHR 0x5C, CHR '']'', CHR 0x60}"
  have "?plain ch = (\<not> is_special_code (of_char ch))" for ch
    unfolding special_code_iff by (simp add: kSpecialChar_def not_less)
  then have plain: "list_all ?plain S = (lowest ?t 256 kInvalidPos = kInvalidPos)"
    unfolding lowest_table_invalid [OF len] list_all_iff by simp
  have scan: "scan_ascii ?t =
     (lowest ?t 256 kInvalidPos,
      if single_quote \<in> set S then firstPos (?t ! of_char single_quote) else kInvalidPos,
      if double_quote \<in> set S then firstPos (?t ! of_char double_quote) else kInvalidPos)"
    by (rule scan_table [OF len])
  have sq: "single_quote \<in> set S \<Longrightarrow> firstPos (?t ! of_char single_quote) < kInvalidPos"
    and dq: "double_quote \<in> set S \<Longrightarrow> firstPos (?t ! of_char double_quote) < kInvalidPos"
    using quote_pos_bound [OF len] by blast+
  show ?thesis
  proof (cases "list_all ?plain S")
    case True
    then have "lowest ?t 256 kInvalidPos = kInvalidPos" using plain by simp
    then show ?thesis using False nq True
      by (simp add: CreateSafeScalar_def GetSpecialChars_def scan Special_of_def Let_def)
  next
    case np: False
    then have lo: "lowest ?t 256 kInvalidPos \<noteq> kInvalidPos" using plain by simp
    show ?thesis
    proof (cases "CHR 0x27 \<in> set S")
      case True
      then have "CHR 0x22 \<notin> set S" using nb by simp
      then show ?thesis using False nq np lo True sq
        by (simp add: CreateSafeScalar_def GetSpecialChars_def scan single_quote_def double_quote_def Let_def)
    next
      case nsq: False
      then show ?thesis using False nq np lo
        by (simp add: CreateSafeScalar_def GetSpecialChars_def scan single_quote_def double_quote_def Let_def)
    qed
  qed
qed

theorem CreateSafeScalar_quoting_witness:
  "length ''a-b'' < 2 ^ 64 \<and> \<not> already_quoted ''a-b'' \<and>
   \<not> (CHR 0x27 \<in> set ''a-b'' \<and> CHR 0x22 \<in> set ''a-b'') \<and>
   CreateSafeScalar ''a-b'' = Some (CHR 0x27 # ''a-b'' @ [CHR 0x27])"
  using CreateSafeScalar_quoting [of "''a-b''"]
  by (simp add: already_quoted_def single_quote_def double_quote_def)

text \<open>
  Claim C4 says that the table holds the first position of every byte and that
  \<open>firstSpecialPos\<close> is the least position of a special byte. The first loop takes
  \<open>firstPos = 0\<close> for "not seen yet", so the byte at position 0 is recorded again at
  its next occurrence. For the scalar \<open>-a-\<close> the dash is entered at position 2, and
  \<open>GetSpecialChars\<close> reports 2 where the first special byte is at position 0.
\<close>

theorem GetSpecialChars_dash_a_dash:
  "firstPos (build_ascii ''-a-'' 0 ascii_init ! of_char (CHR ''-'')) = 2 \<and>
   GetSpecialChars ''-a-'' =
     \<lparr>firstSpecialPos = 2, firstSingleQuote = kInvalidPos, firstDoubleQuote = kInvalidPos,
      hasSpecialChars = True, specialChar = CHR ''-''\<rparr>"
proof -
  let ?t = "build_ascii ''-a-'' 0 ascii_init"
  have dash: "?t ! 45 = \<lparr>firstPos = 2, found = True\<rparr>"
    by (simp add: build_ascii_nth ascii_init_def kAsciiTableSize_def)
  have sp: "is_special_code 45"
    by (simp add: is_special_code_def kSpecialChar_def kLowerBound_def kUpperBound_def)
  have le: "lowest ?t 256 kInvalidPos \<le> 2"
    using lowest_lower [of 45 256 ?t kInvalidPos] dash sp by simp
  have "lowest ?t 256 kInvalidPos = 2"
    using lowest_cases [of ?t 256 kInvalidPos]
  proof
    assume "lowest ?t 256 kInvalidPos = kInvalidPos"
    with le show ?thesis by (simp add: kInvalidPos_def)
  next
    assume "\<exists>c<256. found (?t ! c) \<and> is_special_code c \<and>
              lowest ?t 256 kInvalidPos = firstPos (?t ! c)"
    then obtain c where c: "c < 256" "found (?t ! c)" "is_special_code c"
      "lowest ?t 256 kInvalidPos = firstPos (?t ! c)" by blast
    from c(2) have "c \<in> of_char ` set ''-a-''" unfolding table_found [OF c(1)] .
    then have "c = 45 \<or> c = 97" by auto
    moreover have "\<not> is_special_code 97"
      by (simp add: is_special_code_def kSpecialChar_def kLowerBound_def kUpperBound_def)
    ultimately have "c = 45" using c(3) by auto
    with c(4) dash show ?thesis by simp
  qed
  moreover have "scan_ascii ?t = (lowest ?t 256 kInvalidPos, kInvalidPos, kInvalidPos)"
    using scan_table [of "''-a-''"] by (simp add: single_quote_def double_quote_def)
  ultimately show ?thesis using dash
    by (simp add: GetSpecialChars_def already_quoted_def single_quote_def double_quote_def
        kInvalidPos_def)
qed

section \<open>Claims about the parser\<close>

text \<open>
  Runs of \<open>Parse\<close> on a given text are computed by rewriting with the definitions of
  the model, collected here.
\<close>

lemmas yaml_eval =
  Parse_events_def Parse_def Parse_loop.simps PopAll.simps Iteration_def HandleIndent_def
  Dispatch_def ParseNode_def ParseQuoted_def ParseQuoted_loop.simps SkipToImportant.simps
  ParsePlain_def ParsePlain_loop.simps OutputScalar_def IsNormalChar_def SkipLine.simps
  SkipSpaces_def SkipSpaces_loop.simps SkipStartDocument_def SkipStartDocument_loop.simps
  GetIndent_def GetIndent_loop.simps PeekNext_def Pop_def PopWhile.simps HandleMissingNull_def
  Push_def Error_def ExtractStr_def peek_def char_at_def onKey_def onScalar_def emit_def
  YamlParser_init_def default_handler_def CharIsIn_def kIndentChars_def kIgnoreIndent_def
  kEndLine_def kIsWhite_def kEndScalar_def kImportantChar_def kUnsupported_def kQuoteChars_def
  kMaxScalarStringPrefixForErrorMsg_def kMaxStackSize_def kNoLevel_def single_quote_def
  double_quote_def Let_def

text \<open>
  Claim C1, as the code has it. For the text \<open>a:\<close>, \<open>  b: 1\<close>, \<open>  c: 2\<close> (three lines) and
  a handler that always continues, \<open>Parse\<close> succeeds and the handler receives exactly:
  start of document, key \<open>a\<close>, start of mapping, key \<open>b\<close>, scalar \<open>1\<close>, key \<open>c\<close>,
  scalar \<open>2\<close>, end of mapping, end of document. The deeper indentation opens exactly one
  mapping and the end of the input closes it; the mapping at the top level, which belongs
  to the sentinel frame of the stack, is announced by no event of its own.
\<close>

theorem nested_mapping_events:
  "Parse_events default_handler ''a:\<newline>  b: 1\<newline>  c: 2\<newline>'' =
     Some (True, [StartDocument, Key ''a'', StartMapping, Key ''b'', Scalar ''1'', Key ''c'',
                  Scalar ''2'', EndMapping, EndDocument])"
  by (simp add: yaml_eval)

text \<open>
  The claim lists a start of mapping before key \<open>a\<close> and two ends of mapping. That list
  is not what the handler receives, with or without the start of document in front.
\<close>

theorem nested_mapping_claimed_events_not_delivered:
  "Parse_events default_handler ''a:\<newline>  b: 1\<newline>  c: 2\<newline>'' \<noteq>
     Some (True, [StartMapping, Key ''a'', StartMapping, Key ''b'', Scalar ''1'', Key ''c'',
                  Scalar ''2'', EndMapping, EndMapping, EndDocument]) \<and>
   Parse_events default_handler ''a:\<newline>  b: 1\<newline>  c: 2\<newline>'' \<noteq>
     Some (True, [StartDocument, StartMapping, Key ''a'', StartMapping, Key ''b'', Scalar ''1'',
                  Key ''c'', Scalar ''2'', EndMapping, EndMapping, EndDocument])"
  by (simp add: yaml_eval)

text \<open>
  Claim C3 says that \<open>Parse\<close> fails on the text \<open>}\<close>, with the error for an unbalanced
  closer, and calls no \<open>onEndMapping\<close>. The code calls \<open>onEndMapping\<close>, reports no error and
  returns true: the case for \<open>}\<close> of the \<open>switch\<close> never consults the stack, and the check
  of \<open>Pop\<close> ("Too many closing braces or brackets") is not on its path. On the path
  where \<open>Parse\<close> does test the result of \<open>Pop\<close>, the check cannot fire (lemma
  \<open>indentation_never_refuses\<close>).
\<close>

theorem lone_closing_brace_accepted:
  "Parse_events default_handler ''}'' = Some (True, [StartDocument, EndMapping, EndDocument])"
  by (simp add: yaml_eval)

lemma nested_key_without_value:
  "Parse_events default_handler ''a:\<newline>  b:\<newline>'' =
     Some (True, [StartDocument, Key ''a'', StartMapping, Key ''b'', Scalar ''null'',
                  EndMapping, EndDocument])"
  by (simp add: yaml_eval)

text \<open>
  Claim C5 says that for the text \<open>key:\<close> followed by a newline the handler receives a
  synthetic scalar \<open>null\<close> before the end of the document. \<open>HandleMissingNull\<close> runs in
  \<open>Pop\<close>, at a closing bracket and before the next key; at the end of the input, with
  only the sentinel frame on the stack, nothing calls it, and the key stays without a
  value. (One level deeper the \<open>Pop\<close> at the end of the input does supply the scalar:
  lemma \<open>nested_key_without_value\<close>.)
\<close>

theorem key_without_value_at_end:
  "Parse_events default_handler ''key:\<newline>'' =
     Some (True, [StartDocument, Key ''key'', EndDocument])"
  by (simp add: yaml_eval)

text \<open>
  Claim C8 says that fewer than three dashes where the document marker is expected make
  the parse fail. \<open>SkipStartDocument\<close> does return false for the text \<open>--\<close>, but \<open>Parse\<close>
  drops the returned value, reports no error and returns true.
\<close>

theorem two_dashes_accepted:
  "map_option fst (SkipStartDocument (emit StartDocument (YamlParser_init ''--''))) = Some False \<and>
   Parse_events default_handler ''--'' = Some (True, [StartDocument, EndDocument])"
  by (simp add: yaml_eval)

text \<open>
  A tab that directly follows a run of dashes which the \<open>switch\<close> took for a document
  marker is never looked at: \<open>SkipStartDocument\<close> leaves the cursor on the character
  after the dashes, and the increment of the loop steps over it.
\<close>

lemma tab_after_dashes_skipped:
  "Parse_events default_handler [CHR ''-'', CHR ''-'', CHR ''-'', CHR 0x09] =
     Some (True, [StartDocument, EndDocument]) \<and>
   Parse_events default_handler [CHR ''-'', CHR ''-'', CHR 0x09] =
     Some (True, [StartDocument, EndDocument])"
  by (simp add: yaml_eval)

text \<open>
  Claim C6, as the code has it. Let the text hold a tab at offset \<open>t\<close>. Then \<open>Parse\<close>
  returns false, and the last call the handler received is \<open>onError\<close>, or a key or a
  scalar to which the handler answered false; or the scanner has passed over the tab
  without looking at it: some iteration entered the \<open>switch\<close> at an offset \<open>d\<close> before
  the tab, on a \<open>#\<close> or \<open>%\<close> with no end of line between it and the tab (a comment or
  directive), on a quote character that does not occur again before the tab (a quoted
  scalar), on a null character (the end of the input), or on a dash followed by a dash
  where the tab comes directly after these two or after a third dash; or the run ends in
  the failed \<open>assert\<close> of \<open>YamlStack::push\<close>.
\<close>

theorem tab_rejected_or_passed_over:
  assumes "t < length text" and "text ! t = CHR 0x09"
  shows "(\<exists>evs. Parse_events h text = Some (False, evs) \<and> evs \<noteq> [] \<and>
            ((\<exists>msg l c. last evs = ErrorEvent msg l c) \<or>
             (\<exists>str. last evs = Key str \<or> last evs = Scalar str) \<and> \<not> h evs)) \<or>
         (\<exists>d. switch_on h text d \<and> passed_over text d t) \<or>
         Parse_events h text = None \<and>
         (\<exists>q. loop_reaches h (emit StartDocument (YamlParser_init text)) q \<and> curr q < endp q \<and>
              push_refused q)"
proof (cases "Parse h text")
  case None
  from Parse_None [OF this] None show ?thesis by (simp add: Parse_events_def)
next
  case (Some r)
  obtain ok p where "r = (ok, p)" by (cases r)
  with Some have run: "Parse h text = Some (ok, p)" by simp
  let ?p0 = "emit StartDocument (YamlParser_init text)"
  from run obtain ok1 p1 where loop: "Parse_loop h ?p0 = Some (ok1, p1)"
    by (auto simp: Parse_def split: option.splits)
  from Parse_loop_reaches [OF loop] obtain q where
    q: "loop_reaches h ?p0 q"
       "if ok1 then p1 = q \<and> endp q \<le> curr q
        else curr q < endp q \<and> Iteration h q = Some (False, p1)"
    by blast
  show ?thesis
  proof (cases ok1)
    case False
    with run loop have res: "ok = False" "p = p1" by (auto simp: Parse_def)
    from q(2) False have inside: "curr q < endp q" and it: "Iteration h q = Some (False, p1)"
      by simp_all
    from loop_reaches_head [OF q(1) init_ok init_head(1)] inside
    have "endp q = length (yaml q)" "stack_ok (yamlStack q)"
      by (auto simp: YamlParser_init_def)
    with it inside obtain q1 where "Dispatch h q1 = Some (False, p1)"
      by (rule Iteration_parts)
    from Dispatch_refusal [OF this] have "refusal h (events p1)" .
    with run res show ?thesis by (simp add: Parse_events_def refusal_def)
  next
    case True
    with q(2) have stop: "endp q \<le> curr q" by simp
    from loop_reaches_covered [OF q(1)]
    have cov: "\<And>t. t < curr q \<Longrightarrow> t < length text \<Longrightarrow> text ! t = CHR 0x09 \<Longrightarrow>
                 \<exists>d. switch_on h text d \<and> passed_over text d t"
      and fin: "endp q = length text \<or>
          endp q < curr q \<and> endp q < length text \<and> switch_on h text (endp q) \<and>
          text ! endp q = CHR 0x00"
      by blast+
    have "\<exists>d. switch_on h text d \<and> passed_over text d t"
    proof (cases "t < curr q")
      case True
      from cov [OF this assms] show ?thesis .
    next
      case False
      with stop assms(1) fin have f: "endp q < curr q" "switch_on h text (endp q)"
        "text ! endp q = CHR 0x00"
        by auto
      from f(1) False have "endp q < t" by simp
      with f(3) have "passed_over text (endp q) t"
        by (simp add: passed_over_def single_quote_def double_quote_def)
      with f(2) show ?thesis by blast
    qed
    then show ?thesis by simp
  qed
qed

text \<open>
  The text \<open>'a'\<close> followed by a tab: the tab comes after the closing quote. The loop
  stands at the head of an iteration twice, at offsets 0 and 3, so the \<open>switch\<close> is
  entered at these offsets only, and neither passes over the tab; the stack never holds
  more than the sentinel. So \<open>Parse\<close> returns false after a call of \<open>onError\<close>.
\<close>

theorem tab_rejected_or_passed_over_witness:
  "3 < length [CHR 0x27, CHR ''a'', CHR 0x27, CHR 0x09] \<and>
   [CHR 0x27, CHR ''a'', CHR 0x27, CHR 0x09] ! 3 = CHR 0x09 \<and>
   \<not> (\<exists>d. switch_on default_handler [CHR 0x27, CHR ''a'', CHR 0x27, CHR 0x09] d \<and>
           passed_over [CHR 0x27, CHR ''a'', CHR 0x27, CHR 0x09] d 3) \<and>
   (\<exists>evs msg l c. Parse_events default_handler [CHR 0x27, CHR ''a'', CHR 0x27, CHR 0x09] =
        Some (False, evs) \<and> evs \<noteq> [] \<and> last evs = ErrorEvent msg l c) \<and>
   Parse_events default_handler [CHR 0x27, CHR ''a'', CHR 0x27, CHR 0x09] =
     Some (False, [StartDocument, Scalar ''a'', ErrorEvent ''Avoid tabs in YAML files'' 1 5])"
proof -
  let ?text = "[CHR 0x27, CHR ''a'', CHR 0x27, CHR 0x09]"
  let ?start = "emit StartDocument (YamlParser_init ?text)"
  let ?second = "\<lparr>yaml = ?text, curr = 3, endp = 4, line = 1, col = 5,
      yamlStack = [\<lparr>level = 0, isSequence = False\<rparr>], completeKeyValuePair = True,
      events = [StartDocument, Scalar ''a'']\<rparr>"
  have heads: "q = ?start \<or> q = ?second" if "loop_reaches default_handler ?start q" for q
    using that
  proof (induction rule: loop_reaches.induct)
    case start
    show ?case by simp
  next
    case (step q q')
    from step.IH show ?case
    proof
      assume "q = ?start"
      with step.hyps(3) show ?thesis by (simp add: yaml_eval) auto
    next
      assume "q = ?second"
      with step.hyps(3) show ?thesis by (simp add: yaml_eval)
    qed
  qed
  have entered: "d = 0 \<or> d = 3" if "switch_on default_handler ?text d" for d
  proof -
    from that obtain q q1 where q: "loop_reaches default_handler ?start q"
      "HandleIndent q = Some (True, q1)" "curr q1 = d"
      unfolding switch_on_def by blast
    from heads [OF q(1)] q(2,3) show ?thesis
      by (auto simp: HandleIndent_def emit_def YamlParser_init_def)
  qed
  have no_pass: "\<not> (\<exists>d. switch_on default_handler ?text d \<and> passed_over ?text d 3)"
  proof
    assume "\<exists>d. switch_on default_handler ?text d \<and> passed_over ?text d 3"
    then obtain d where d: "switch_on default_handler ?text d" "passed_over ?text d 3" by blast
    from entered [OF d(1)] d(2) show False
      by (auto simp: passed_over_def single_quote_def double_quote_def Let_def list_all_iff
          dest: bspec [where x = 2])
  qed
  have no_abort: "\<not> (\<exists>q. loop_reaches default_handler ?start q \<and> curr q < endp q \<and>
                        push_refused q)"
  proof
    assume "\<exists>q. loop_reaches default_handler ?start q \<and> curr q < endp q \<and> push_refused q"
    then obtain q where q: "loop_reaches default_handler ?start q" "push_refused q" by blast
    from heads [OF q(1)] push_refused_stack [OF q(2)] show False
      by (auto simp: kMaxStackSize_def emit_def YamlParser_init_def)
  qed
  have "3 < length ?text" "?text ! 3 = CHR 0x09" by simp_all
  from tab_rejected_or_passed_over [OF this, of default_handler] no_pass no_abort
  have "\<exists>evs msg l c. Parse_events default_handler ?text = Some (False, evs) \<and> evs \<noteq> [] \<and>
          last evs = ErrorEvent msg l c"
    by (auto simp: default_handler_def)
  moreover have "Parse_events default_handler ?text =
      Some (False, [StartDocument, Scalar ''a'', ErrorEvent ''Avoid tabs in YAML files'' 1 5])"
    by (simp add: yaml_eval)
  ultimately show ?thesis using no_pass by simp
qed

text \<open>
  The claim speaks of every tab outside a quoted scalar. A tab inside a comment is
  skipped by \<open>SkipLine\<close> with the rest of the line, and a tab after a null character lies
  beyond what the parser takes for the end of the input: no error, and \<open>Parse\<close> returns
  true. When the handler answers false to the scalar in front of a tab, \<open>Parse\<close> returns
  false without a call of \<open>onError\<close>.
\<close>

theorem tab_in_comment_accepted:
  "CHR 0x09 \<in> set [CHR ''#'', CHR 0x09] \<and>
   Parse_events default_handler [CHR ''#'', CHR 0x09] = Some (True, [StartDocument, EndDocument]) \<and>
   Parse_events default_handler [CHR 0x00, CHR 0x09] = Some (True, [StartDocument, EndDocument]) \<and>
   Parse_events stop_handler [CHR ''a'', CHR 0x09] = Some (False, [StartDocument, Scalar ''a''])"
  by (simp add: yaml_eval stop_handler_def)

text \<open>
  Claim C7, as the code has it. When the \<open>switch\<close> of \<open>Parse\<close> meets a dash directly
  followed by a space, it calls \<open>onStartMapping\<close> (the source comments the case as a
  "mapping entry"), calls nothing else, and moves the cursor over the spaces that follow,
  leaving it on the last of them.
\<close>

theorem dash_space_starts_mapping:
  assumes dash: "peek p = Some (CHR ''-'')"
    and space: "PeekNext p = Some (CHR '' '')"
    and bound: "endp p \<le> length (yaml p)"
  shows "\<exists>p'. Dispatch h p = Some (True, p') \<and> events p' = events p @ [StartMapping] \<and>
           curr p < curr p' \<and> curr p' < endp p \<and>
           (\<forall>i. curr p < i \<and> i \<le> curr p' \<longrightarrow> yaml p ! i = CHR '' '') \<and>
           (curr p' + 1 < endp p \<longrightarrow> yaml p ! (curr p' + 1) \<noteq> CHR '' '')"
proof -
  from space have nxt: "curr p + 1 < endp p" "yaml p ! (curr p + 1) = CHR '' ''"
    by (auto simp: PeekNext_def char_at_def split: if_splits)
  let ?q = "(emit StartMapping p)\<lparr>curr := curr p + 1\<rparr>"
  have "endp ?q \<le> length (yaml ?q)" using bound by (simp add: emit_def)
  from SkipSpaces_loop_run [OF this] obtain q' where
    q': "SkipSpaces_loop ?q = Some q'" "curr p + 1 \<le> curr q'" "events q' = events p @ [StartMapping]"
        "curr q' \<le> endp p"
        "\<forall>i. curr p + 1 \<le> i \<and> i < curr q' \<longrightarrow> yaml p ! i = CHR '' ''"
        "curr q' < endp p \<longrightarrow> yaml p ! curr q' \<noteq> CHR '' ''"
    using nxt(1) by (auto simp: emit_def)
  from q'(2,6) nxt have far: "curr p + 2 \<le> curr q'"
    by (cases "curr q' = curr p + 1") auto
  let ?p' = "q'\<lparr>curr := curr q' - 1, col := col q' - 1\<rparr>"
  have "Dispatch h p = Some (True, ?p')"
    using dash space q'(1) by (simp add: Dispatch_def SkipSpaces_def)
  moreover have "events ?p' = events p @ [StartMapping]" using q'(3) by simp
  moreover have "curr p < curr ?p'" "curr ?p' < endp p" using far q'(4) by auto
  moreover have "\<forall>i. curr p < i \<and> i \<le> curr ?p' \<longrightarrow> yaml p ! i = CHR '' ''"
    using q'(5) far by auto
  moreover have "curr ?p' + 1 < endp p \<longrightarrow> yaml p ! (curr ?p' + 1) \<noteq> CHR '' ''"
    using q'(6) far by auto
  ultimately show ?thesis by blast
qed

theorem dash_space_starts_mapping_witness:
  "peek (emit StartDocument (YamlParser_init ''-  a'')) = Some (CHR ''-'') \<and>
   PeekNext (emit StartDocument (YamlParser_init ''-  a'')) = Some (CHR '' '') \<and>
   (\<exists>p'. Dispatch default_handler (emit StartDocument (YamlParser_init ''-  a'')) = Some (True, p') \<and>
      events p' = [StartDocument, StartMapping] \<and> curr p' = 2)"
proof -
  let ?start = "emit StartDocument (YamlParser_init ''-  a'')"
  have h: "peek ?start = Some (CHR ''-'')" "PeekNext ?start = Some (CHR '' '')"
    "endp ?start \<le> length (yaml ?start)"
    by (simp_all add: peek_def char_at_def PeekNext_def emit_def YamlParser_init_def)
  from dash_space_starts_mapping [OF h, of default_handler] obtain p' where
    p': "Dispatch default_handler ?start = Some (True, p')" "events p' = events ?start @ [StartMapping]"
      "curr ?start < curr p'" "curr p' < endp ?start"
      "curr p' + 1 < endp ?start \<longrightarrow> yaml ?start ! (curr p' + 1) \<noteq> CHR '' ''"
      "\<forall>i. curr ?start < i \<and> i \<le> curr p' \<longrightarrow> yaml ?start ! i = CHR '' ''"
    by blast
  have "curr p' = 2"
  proof -
    from p'(3,4) have "curr p' = 1 \<or> curr p' = 2 \<or> curr p' = 3"
      by (auto simp: emit_def YamlParser_init_def)
    moreover have "curr p' \<noteq> 1" using p'(5) by (auto simp: emit_def YamlParser_init_def)
    moreover have "curr p' \<noteq> 3" using p'(6) by (auto simp: emit_def YamlParser_init_def)
    ultimately show ?thesis by simp
  qed
  with p'(1,2) h(1,2) show ?thesis by (simp add: emit_def YamlParser_init_def)
qed

text \<open>
  The claim says start of sequence. On the text \<open>- a\<close> the first character is such a
  dash; the handler receives a start of mapping and never a start of sequence.
\<close>

theorem dash_space_run:
  "peek (emit StartDocument (YamlParser_init ''- a'')) = Some (CHR ''-'') \<and>
   PeekNext (emit StartDocument (YamlParser_init ''- a'')) = Some (CHR '' '') \<and>
   Parse_events default_handler ''- a'' =
     Some (True, [StartDocument, StartMapping, Scalar ''a'', EndDocument])"
  by (simp add: yaml_eval)

text \<open>
  Claim C9. The constructor leaves a stack that holds the sentinel frame of level 0 alone.
  In every state in which the loop of \<open>Parse\<close> stands at the head of an iteration, the
  stack is not empty, has that frame at the bottom and has strictly increasing levels
  from the bottom to the top. In every such state inside the text the iteration runs as
  follows, unless \<open>YamlStack::push\<close> meets a full stack and its \<open>assert\<close> fails: the
  indentation step has a result, does not refuse (its pops never reach the sentinel) and
  leaves a stack of that shape; the \<open>switch\<close> then has a result and leaves the stack as
  it is. Every step of the parser keeps a stack of that shape in that shape: a \<open>Push\<close>
  under the guard of \<open>Parse\<close> (a level above that of the top frame), a \<open>Pop\<close> (on the
  sentinel alone it refuses and leaves it in place), the loop of pops at a dedent, the
  indentation step, the \<open>switch\<close>, a whole iteration, and the unwinding at the end.
  \<open>Parse\<close> returns, with a stack of that shape, unless that \<open>assert\<close> fails at the head
  of some iteration.
\<close>

theorem indent_stack_invariant:
  "stack_ok (yamlStack (YamlParser_init text)) \<and>
   (\<forall>p. loop_reaches h (emit StartDocument (YamlParser_init text)) p \<longrightarrow>
        stack_ok (yamlStack p)) \<and>
   (\<forall>p. loop_reaches h (emit StartDocument (YamlParser_init text)) p \<and> curr p < endp p \<longrightarrow>
        (\<exists>p1 ok p'. HandleIndent p = Some (True, p1) \<and> stack_ok (yamlStack p1) \<and>
            Dispatch h p1 = Some (ok, p') \<and> yamlStack p' = yamlStack p1 \<and>
            Iteration h p = Some (ok, p')) \<or>
        push_refused p) \<and>
   (\<forall>p. stack_ok (yamlStack p) \<longrightarrow>
        (\<forall>i p'. level (hd (yamlStack p)) < level i \<and> Push i p = Some p' \<longrightarrow>
             stack_ok (yamlStack p')) \<and>
        (\<forall>ok p'. Pop p = Some (ok, p') \<longrightarrow> stack_ok (yamlStack p')) \<and>
        (\<forall>i ok p'. PopWhile i p = Some (ok, p') \<longrightarrow> stack_ok (yamlStack p')) \<and>
        (\<forall>ok p'. HandleIndent p = Some (ok, p') \<longrightarrow> stack_ok (yamlStack p')) \<and>
        (\<forall>ok p'. Dispatch h p = Some (ok, p') \<longrightarrow> yamlStack p' = yamlStack p) \<and>
        (\<forall>ok p'. Iteration h p = Some (ok, p') \<longrightarrow> stack_ok (yamlStack p')) \<and>
        (\<forall>p'. PopAll p = Some p' \<longrightarrow> stack_ok (yamlStack p'))) \<and>
   ((\<exists>ok p. Parse h text = Some (ok, p) \<and> stack_ok (yamlStack p)) \<or>
    Parse h text = None \<and>
    (\<exists>p. loop_reaches h (emit StartDocument (YamlParser_init text)) p \<and> curr p < endp p \<and>
         push_refused p))"
proof (intro conjI allI impI)
  show "stack_ok (yamlStack (YamlParser_init text))"
    by (simp add: YamlParser_init_def stack_ok_def)
next
  fix p assume "loop_reaches h (emit StartDocument (YamlParser_init text)) p"
  then show "stack_ok (yamlStack p)" by (rule loop_reaches_ok) (rule init_ok)
next
  fix p
  assume "loop_reaches h (emit StartDocument (YamlParser_init text)) p \<and> curr p < endp p"
  then have reach: "loop_reaches h (emit StartDocument (YamlParser_init text)) p"
    and inside: "curr p < endp p" by simp_all
  from loop_reaches_head [OF reach init_ok init_head(1)] inside
  have ok: "stack_ok (yamlStack p)" and whole: "endp p = length (yaml p)"
    by (auto simp: init_head)
  have "curr p \<le> endp p" "endp p \<le> length (yaml p)" using inside whole by simp_all
  from HandleIndent_total [OF this ok]
  consider p1 where "HandleIndent p = Some (True, p1)" "yaml p1 = yaml p" "endp p1 = endp p"
      "curr p1 \<le> endp p"
    | "push_refused p"
    by blast
  then show "(\<exists>p1 ok p'. HandleIndent p = Some (True, p1) \<and> stack_ok (yamlStack p1) \<and>
            Dispatch h p1 = Some (ok, p') \<and> yamlStack p' = yamlStack p1 \<and>
            Iteration h p = Some (ok, p')) \<or>
        push_refused p"
  proof cases
    case 1
    from HandleIndent_ok [OF 1(1) ok] have ok1: "stack_ok (yamlStack p1)" .
    have "curr p1 \<le> endp p1" "endp p1 = length (yaml p1)" using 1 whole by simp_all
    from Dispatch_total [OF this, of h] obtain ok' p' where
      d: "Dispatch h p1 = Some (ok', p')" by blast
    from Dispatch_scans [OF d] have "yamlStack p' = yamlStack p1" by (simp add: scans_def)
    moreover from 1(1) d have "Iteration h p = Some (ok', p')" by (simp add: Iteration_def)
    ultimately show ?thesis using 1(1) ok1 d by blast
  next
    case 2
    then show ?thesis by simp
  qed
next
  fix p i p'
  assume "stack_ok (yamlStack p)" and "level (hd (yamlStack p)) < level i \<and> Push i p = Some p'"
  then show "stack_ok (yamlStack p')" by (auto intro: Push_ok)
next
  fix p ok p' assume "stack_ok (yamlStack p)" and "Pop p = Some (ok, p')"
  then show "stack_ok (yamlStack p')" by (rule Pop_ok)
next
  fix p i ok p' assume "stack_ok (yamlStack p)" and "PopWhile i p = Some (ok, p')"
  then show "stack_ok (yamlStack p')" by (rule PopWhile_ok [rotated])
next
  fix p ok p' assume "stack_ok (yamlStack p)" and "HandleIndent p = Some (ok, p')"
  then show "stack_ok (yamlStack p')" by (rule HandleIndent_ok [rotated])
next
  fix p ok p' assume "Dispatch h p = Some (ok, p')"
  from Dispatch_scans [OF this] show "yamlStack p' = yamlStack p" by (simp add: scans_def)
next
  fix p ok p' assume "stack_ok (yamlStack p)" and "Iteration h p = Some (ok, p')"
  then show "stack_ok (yamlStack p')" by (rule Iteration_ok [rotated])
next
  fix p p' assume "stack_ok (yamlStack p)" and "PopAll p = Some p'"
  then show "stack_ok (yamlStack p')" by (rule PopAll_ok [rotated])
next
  show "(\<exists>ok p. Parse h text = Some (ok, p) \<and> stack_ok (yamlStack p)) \<or>
    Parse h text = None \<and>
    (\<exists>p. loop_reaches h (emit StartDocument (YamlParser_init text)) p \<and> curr p < endp p \<and>
         push_refused p)"
  proof (cases "Parse h text")
    case None
    from Parse_None [OF this] None show ?thesis by simp
  next
    case (Some r)
    obtain ok p where "r = (ok, p)" by (cases r)
    with Some have run: "Parse h text = Some (ok, p)" by simp
    from Parse_ok [OF run] run show ?thesis by blast
  qed
qed

text \<open>
  The text \<open>a:\<close>, newline, two spaces ends inside an indentation. At the head of the
  fourth iteration the indentation step reads on to the end of the text, pushes a frame
  of level 2 on the sentinel, and the \<open>switch\<close> reads the terminating null character;
  \<open>Parse\<close> pops the frame and returns true.
\<close>

theorem indent_stack_invariant_witness:
  "loop_reaches default_handler (emit StartDocument (YamlParser_init ''a:\<newline>  ''))
     \<lparr>yaml = ''a:\<newline>  '', curr = 3, endp = 5, line = 2, col = 1,
      yamlStack = [\<lparr>level = 0, isSequence = False\<rparr>], completeKeyValuePair = False,
      events = [StartDocument, Key ''a'']\<rparr> \<and>
   (\<exists>p1. HandleIndent
      \<lparr>yaml = ''a:\<newline>  '', curr = 3, endp = 5, line = 2, col = 1,
       yamlStack = [\<lparr>level = 0, isSequence = False\<rparr>], completeKeyValuePair = False,
       events = [StartDocument, Key ''a'']\<rparr> = Some (True, p1) \<and>
      yamlStack p1 = [\<lparr>level = 2, isSequence = False\<rparr>, \<lparr>level = 0, isSequence = False\<rparr>] \<and>
      stack_ok (yamlStack p1)) \<and>
   (\<exists>p'. Push \<lparr>level = 2, isSequence = False\<rparr>
            (emit StartDocument (YamlParser_init ''a:\<newline>  '')) = Some p' \<and>
         stack_ok (yamlStack p')) \<and>
   (\<exists>p. Parse default_handler ''a:\<newline>  '' = Some (True, p) \<and>
        yamlStack p = [\<lparr>level = 0, isSequence = False\<rparr>] \<and> stack_ok (yamlStack p))"
proof -
  let ?text = "''a:\<newline>  ''"
  let ?start = "emit StartDocument (YamlParser_init ?text)"
  let ?second = "\<lparr>yaml = ?text, curr = 1, endp = 5, line = 1, col = 2,
      yamlStack = [\<lparr>level = 0, isSequence = False\<rparr>], completeKeyValuePair = False,
      events = [StartDocument, Key ''a'']\<rparr>"
  let ?third = "\<lparr>yaml = ?text, curr = 2, endp = 5, line = 1, col = 2,
      yamlStack = [\<lparr>level = 0, isSequence = False\<rparr>], completeKeyValuePair = False,
      events = [StartDocument, Key ''a'']\<rparr>"
  let ?fourth = "\<lparr>yaml = ?text, curr = 3, endp = 5, line = 2, col = 1,
      yamlStack = [\<lparr>level = 0, isSequence = False\<rparr>], completeKeyValuePair = False,
      events = [StartDocument, Key ''a'']\<rparr>"
  note inv = indent_stack_invariant [of ?text default_handler]
  note at_heads = inv [THEN conjunct2, THEN conjunct1, rule_format]
  note runs = inv [THEN conjunct2, THEN conjunct2, THEN conjunct1, rule_format]
  note steps = inv [THEN conjunct2, THEN conjunct2, THEN conjunct2, THEN conjunct1, rule_format]
  note at_end = inv [THEN conjunct2, THEN conjunct2, THEN conjunct2, THEN conjunct2]
  have "curr ?start < endp ?start" by (simp add: emit_def YamlParser_init_def)
  moreover obtain n1 where "Iteration default_handler ?start = Some (True, n1)"
    "n1\<lparr>curr := curr n1 + 1, col := col n1 + 1\<rparr> = ?second"
    by (simp add: yaml_eval)
  ultimately have r2: "loop_reaches default_handler ?start ?second"
    using loop_reaches.step [OF loop_reaches.start, of ?start default_handler n1] by simp
  have "curr ?second < endp ?second" by simp
  moreover obtain n2 where "Iteration default_handler ?second = Some (True, n2)"
    "n2\<lparr>curr := curr n2 + 1, col := col n2 + 1\<rparr> = ?third"
    by (simp add: yaml_eval)
  ultimately have r3: "loop_reaches default_handler ?start ?third"
    using loop_reaches.step [OF r2, of n2] by simp
  have "curr ?third < endp ?third" by simp
  moreover obtain n3 where "Iteration default_handler ?third = Some (True, n3)"
    "n3\<lparr>curr := curr n3 + 1, col := col n3 + 1\<rparr> = ?fourth"
    by (simp add: yaml_eval)
  ultimately have r4: "loop_reaches default_handler ?start ?fourth"
    using loop_reaches.step [OF r3, of n3] by simp
  have inside: "curr ?fourth < endp ?fourth" by simp
  obtain p1 where hi: "HandleIndent ?fourth = Some (True, p1)"
    "yamlStack p1 = [\<lparr>level = 2, isSequence = False\<rparr>, \<lparr>level = 0, isSequence = False\<rparr>]"
    by (simp add: yaml_eval)
  from runs [of ?fourth] r4 inside hi(1) have ok1: "stack_ok (yamlStack p1)"
    by (auto dest: push_refused_HandleIndent)
  have s: "stack_ok (yamlStack ?start)" by (rule at_heads) (rule loop_reaches.start)
  obtain p' where push: "Push \<lparr>level = 2, isSequence = False\<rparr> ?start = Some p'"
    by (simp add: Push_def emit_def YamlParser_init_def kMaxStackSize_def)
  have lv: "level (hd (yamlStack ?start)) < level \<lparr>level = 2, isSequence = False\<rparr>"
    by (simp add: emit_def YamlParser_init_def)
  have b: "stack_ok (yamlStack p')"
    by (rule steps [OF s, THEN conjunct1, rule_format]) (use lv push in blast)
  obtain p where run: "Parse default_handler ?text = Some (True, p)"
    "yamlStack p = [\<lparr>level = 0, isSequence = False\<rparr>]"
    by (simp add: yaml_eval)
  from at_end run(1) have c: "stack_ok (yamlStack p)" by auto
  from r4 hi ok1 push b run c show ?thesis by blast
qed

text \<open>
  Claim C10. For every text and every handler, \<open>Parse\<close> returns, unless
  \<open>YamlStack::push\<close> meets a full stack (\<open>kMaxStackSize - 1\<close> frames, one for each
  open level of indentation) and its \<open>assert\<close> fails at the head of some iteration. In
  every run that returns, \<open>onStartDocument\<close> is the first call the handler receives and
  is not called again; when \<open>Parse\<close> returns true, \<open>onEndDocument\<close> is the last call
  and is called that once; when \<open>Parse\<close> returns false, after an error or after the
  handler has answered false to a key or a scalar, \<open>onEndDocument\<close> is not called at
  all. The calls made before are kept.
\<close>

theorem Parse_document_events:
  "(\<exists>ok p mid. Parse h text = Some (ok, p) \<and>
       events p = StartDocument # mid @ (if ok then [EndDocument] else []) \<and>
       StartDocument \<notin> set mid \<and> EndDocument \<notin> set mid) \<or>
   Parse h text = None \<and>
   (\<exists>q. loop_reaches h (emit StartDocument (YamlParser_init text)) q \<and> curr q < endp q \<and>
        push_refused q \<and> kMaxStackSize - 1 \<le> length (yamlStack q))"
proof (cases "Parse h text")
  case None
  from Parse_None [OF this] obtain q where
    "loop_reaches h (emit StartDocument (YamlParser_init text)) q" "curr q < endp q"
    "push_refused q"
    by blast
  with push_refused_stack [of q] None show ?thesis by blast
next
  case (Some r)
  obtain ok p where "r = (ok, p)" by (cases r)
  with Some have run: "Parse h text = Some (ok, p)" by simp
  let ?p0 = "emit StartDocument (YamlParser_init text)"
  have ev0: "events ?p0 = [StartDocument]" by (simp add: emit_def YamlParser_init_def)
  from run obtain ok1 p1 where loop: "Parse_loop h ?p0 = Some (ok1, p1)"
    by (auto simp: Parse_def split: option.splits)
  from Parse_loop_grows [OF loop] ev0 obtain new1 where
    n1: "events p1 = StartDocument # new1" "quiet new1"
    by (auto simp: grows_def)
  have "\<exists>mid. events p = StartDocument # mid @ (if ok then [EndDocument] else []) \<and>
           StartDocument \<notin> set mid \<and> EndDocument \<notin> set mid"
  proof (cases ok1)
    case False
    with run loop have "ok = False" "p = p1" by (auto simp: Parse_def)
    with n1 show ?thesis by (auto simp: quiet_def)
  next
    case True
    with run loop obtain p2 where p2: "PopAll p1 = Some p2" "ok = True" "p = emit EndDocument p2"
      by (auto simp: Parse_def split: option.splits)
    from PopAll_grows [OF p2(1)] n1 obtain new2 where
      "events p2 = StartDocument # new1 @ new2" "quiet new2"
      by (auto simp: grows_def)
    with n1(2) p2 show ?thesis by (auto simp: quiet_def emit_def)
  qed
  with run show ?thesis by blast
qed

text \<open>
  Runs that end on the last character of the text, in a quoted scalar, or in an
  indentation; a run that ends in an error; and a run that the handler stops.
\<close>

theorem Parse_document_events_witness:
  "Parse_events default_handler [CHR 0x27, CHR ''a'', CHR ''b'', CHR ''c'', CHR 0x27] =
     Some (True, [StartDocument, Scalar ''abc'', EndDocument]) \<and>
   Parse_events default_handler [CHR ''k'', CHR '':'', CHR '' '', CHR 0x27, CHR ''v'', CHR 0x27] =
     Some (True, [StartDocument, Key ''k'', Scalar ''v'', EndDocument]) \<and>
   Parse_events default_handler ''a: 1\<newline> '' =
     Some (True, [StartDocument, Key ''a'', Scalar ''1'', StartMapping, EndMapping, EndDocument]) \<and>
   Parse_events default_handler ''k: v'' =
     Some (True, [StartDocument, Key ''k'', Scalar ''v'', EndDocument]) \<and>
   Parse_events default_handler ''!'' =
     Some (False, [StartDocument, ErrorEvent ''! directive not supported'' 1 0]) \<and>
   Parse_events stop_handler ''k: v'' = Some (False, [StartDocument, Key ''k'']) \<and>
   (\<exists>ok p mid. Parse default_handler ''a: 1\<newline> '' = Some (ok, p) \<and>
       events p = StartDocument # mid @ (if ok then [EndDocument] else []) \<and>
       StartDocument \<notin> set mid \<and> EndDocument \<notin> set mid)"
proof -
  have "Parse default_handler ''a: 1\<newline> '' \<noteq> None" by (simp add: yaml_eval)
  with Parse_document_events [of default_handler "''a: 1\<newline> ''"]
  have "\<exists>ok p mid. Parse default_handler ''a: 1\<newline> '' = Some (ok, p) \<and>
       events p = StartDocument # mid @ (if ok then [EndDocument] else []) \<and>
       StartDocument \<notin> set mid \<and> EndDocument \<notin> set mid"
    by blast
  moreover have
    "Parse_events default_handler [CHR 0x27, CHR ''a'', CHR ''b'', CHR ''c'', CHR 0x27] =
       Some (True, [StartDocument, Scalar ''abc'', EndDocument])"
    "Parse_events default_handler [CHR ''k'', CHR '':'', CHR '' '', CHR 0x27, CHR ''v'', CHR 0x27] =
       Some (True, [StartDocument, Key ''k'', Scalar ''v'', EndDocument])"
    "Parse_events default_handler ''a: 1\<newline> '' =
       Some (True, [StartDocument, Key ''a'', Scalar ''1'', StartMapping, EndMapping, EndDocument])"
    "Parse_events default_handler ''k: v'' =
       Some (True, [StartDocument, Key ''k'', Scalar ''v'', EndDocument])"
    "Parse_events default_handler ''!'' =
       Some (False, [StartDocument, ErrorEvent ''! directive not supported'' 1 0])"
    "Parse_events stop_handler ''k: v'' = Some (False, [StartDocument, Key ''k''])"
    by (simp_all add: yaml_eval stop_handler_def)
  ultimately show ?thesis by blast
qed

end
